theory Spec2Isabelle
  imports Main "HOL-Library.Monad_Syntax" "HOL-Library.Multiset"
begin

section \<open>Data model (HashiGame.tsx, type definitions)\<close>

text \<open>
  A \<open>Point\<close> is a JavaScript object: the program compares points with \<open>===\<close>, which is
  reference identity, and it never writes to a point once the puzzle is on the board
  (every change builds a new object with the spread \<open>{...p, ...}\<close>). The model keeps an
  explicit store of point objects: an address is an index into the store, \<open>===\<close> on
  points is equality of addresses, and a spread appends a new object to the store.
  Numbers are JavaScript numbers that only ever hold small integers; they are \<open>int\<close>.
  The field \<open>value\<close> is written \<open>value'\<close>, \<open>end\<close> is \<open>end'\<close>, \<open>id\<close> is \<open>id'\<close> and
  \<open>count\<close> is \<open>count'\<close>, since the plain names are taken.
\<close>

record counters =
  horizontal :: int
  vertical :: int

record point =
  value' :: int
  x :: int
  y :: int
  bridges :: counters
  remainingConnections :: int

type_synonym ref = nat

text \<open>
  The generator handles candidate edges \<open>{start, end}\<close> and chosen edges
  \<open>{start, end, count}\<close>; a \<open>Bridge\<close> has these fields and two more, so the three object
  types are one record and its extensions. An edge holds references to its two point
  objects. The \<open>id\<close> of a bridge comes from \<open>createUniqueId\<close> (a random UUID), modelled
  as the next value of a counter.
\<close>

record edge =
  start :: ref
  end' :: ref

record usedEdge = edge +
  count' :: int

record bridge = usedEdge +
  id' :: nat
  isVertical :: bool

text \<open>
  The component's state: the hooks \<open>board\<close>, \<open>bridges\<close> (the field \<open>bridgeList\<close>, as
  \<open>bridges\<close> is a field of \<open>Point\<close>), \<open>selectedPoint\<close> and \<open>isGameWon\<close>, together
  with the store of point objects and the id counter.
\<close>

record game =
  heap :: "point list"
  board :: "ref list"
  bridgeList :: "bridge list"
  selectedPoint :: "ref option"
  isGameWon :: bool
  nextId :: nat

definition obj :: "game \<Rightarrow> ref \<Rightarrow> point" where
  "obj g a = heap g ! a"

text \<open>The board as the list of point objects the renderer reads.\<close>

definition boardPoints :: "game \<Rightarrow> point list" where
  "boardPoints g = map (obj g) (board g)"

section \<open>Connection validator\<close>

text \<open>\<open>isValidConnection\<close>, lines 423-442.\<close>

definition isValidConnection :: "game \<Rightarrow> ref \<Rightarrow> ref \<Rightarrow> bool" where
  "isValidConnection g s e =
     (let ps = obj g s; pe = obj g e in
      if x ps \<noteq> x pe \<and> y ps \<noteq> y pe then False
      else if remainingConnections ps \<le> 0 \<or> remainingConnections pe \<le> 0 then False
      else
        let blocked = list_ex (\<lambda>p.
              if p = s \<or> p = e then False
              else if x ps = x pe then
                (let minY = min (y ps) (y pe); maxY = max (y ps) (y pe)
                 in x (obj g p) = x ps \<and> y (obj g p) > minY \<and> y (obj g p) < maxY)
              else
                (let minX = min (x ps) (x pe); maxX = max (x ps) (x pe)
                 in y (obj g p) = y ps \<and> x (obj g p) > minX \<and> x (obj g p) < maxX))
              (board g)
        in \<not> blocked)"

section \<open>Bridge ledger\<close>

text \<open>
  \<open>old.map(f)\<close> on the board, where \<open>f\<close> either returns the point itself (\<open>None\<close>) or a
  new object (\<open>Some q\<close>, allocated at the end of the store).
\<close>

fun mapBoard :: "(point \<Rightarrow> point option) \<Rightarrow> point list \<Rightarrow> ref list \<Rightarrow> point list \<times> ref list" where
  "mapBoard f h [] = (h, [])"
| "mapBoard f h (p # ps) =
     (case f (h ! p) of
        None \<Rightarrow> (let (h', ps') = mapBoard f h ps in (h', p # ps'))
      | Some q \<Rightarrow> (let (h', ps') = mapBoard f (h @ [q]) ps in (h', length h # ps')))"

text \<open>The coordinate-based match of \<open>updatePointConnections\<close> and \<open>handleBridgeClick\<close>.\<close>

definition atEndpoints :: "point \<Rightarrow> point \<Rightarrow> point \<Rightarrow> bool" where
  "atEndpoints ps pe p \<longleftrightarrow> (x p = x ps \<and> y p = y ps) \<or> (x p = x pe \<and> y p = y pe)"

text \<open>\<open>updatePointConnections\<close>, lines 487-503.\<close>

definition updatePointConnections :: "game \<Rightarrow> ref \<Rightarrow> ref \<Rightarrow> int \<Rightarrow> game" where
  "updatePointConnections g s e change =
     (let (h', b') = mapBoard (\<lambda>p.
            if atEndpoints (obj g s) (obj g e) p
            then Some (p\<lparr>remainingConnections := remainingConnections p - change\<rparr>)
            else None) (heap g) (board g)
      in g\<lparr>heap := h', board := b'\<rparr>)"

text \<open>\<open>Array.prototype.findIndex\<close>; \<open>None\<close> stands for the result \<open>-1\<close>.\<close>

fun findIndex :: "('a \<Rightarrow> bool) \<Rightarrow> 'a list \<Rightarrow> nat option" where
  "findIndex P [] = None"
| "findIndex P (b # bs) =
     (if P b then Some 0 else map_option Suc (findIndex P bs))"

text \<open>\<open>prev.filter((_, i) => i !== idx)\<close>.\<close>

fun removeAt :: "nat \<Rightarrow> 'a list \<Rightarrow> 'a list" where
  "removeAt i [] = []"
| "removeAt 0 (b # bs) = bs"
| "removeAt (Suc i) (b # bs) = b # removeAt i bs"

text \<open>\<open>addOrUpdateBridge\<close>, lines 447-481.\<close>

definition addOrUpdateBridge :: "game \<Rightarrow> ref \<Rightarrow> ref \<Rightarrow> game" where
  "addOrUpdateBridge g s e =
     (let isVert = (x (obj g s) = x (obj g e));
          idx = findIndex (\<lambda>b. (start b = s \<and> end' b = e) \<or> (start b = e \<and> end' b = s))
                  (bridgeList g)
      in case idx of
           Some i \<Rightarrow>
             (let existing = bridgeList g ! i in
              if count' existing \<ge> 2 then
                updatePointConnections (g\<lparr>bridgeList := removeAt i (bridgeList g)\<rparr>) s e (- 2)
              else
                updatePointConnections
                  (g\<lparr>bridgeList := (bridgeList g)[i := existing\<lparr>count' := 2\<rparr>]\<rparr>) s e 1)
         | None \<Rightarrow>
             (let newBridge = \<lparr>start = s, end' = e, count' = 1, id' = nextId g,
                               isVertical = isVert\<rparr>
              in updatePointConnections
                   (g\<lparr>bridgeList := bridgeList g @ [newBridge], nextId := Suc (nextId g)\<rparr>)
                   s e 1))"

text \<open>
  The validated request, as both \<open>handlePointClick\<close> (lines 520-522) and
  \<open>handleMouseMove\<close> (lines 597-598) issue it.
\<close>

definition primaryCycle :: "game \<Rightarrow> ref \<Rightarrow> ref \<Rightarrow> game" where
  "primaryCycle g s e = (if isValidConnection g s e then addOrUpdateBridge g s e else g)"

text \<open>\<open>handlePointClick\<close>, lines 508-525 (the flag \<open>isDragging\<close> only drives the preview).\<close>

definition handlePointClick :: "game \<Rightarrow> ref \<Rightarrow> game" where
  "handlePointClick g pt =
     (case selectedPoint g of
        None \<Rightarrow> g\<lparr>selectedPoint := Some pt\<rparr>
      | Some sel \<Rightarrow>
          if pt = sel then g\<lparr>selectedPoint := None\<rparr>
          else (primaryCycle g sel pt)\<lparr>selectedPoint := None\<rparr>)"

text \<open>\<open>handleBridgeClick\<close>, lines 531-570. The argument is the bridge object clicked.\<close>

definition restoreOne :: "game \<Rightarrow> bridge \<Rightarrow> game" where
  "restoreOne g b =
     (let (h', b') = mapBoard (\<lambda>p.
            if atEndpoints (obj g (start b)) (obj g (end' b)) p
            then Some (p\<lparr>remainingConnections := remainingConnections p + 1\<rparr>)
            else None) (heap g) (board g)
      in g\<lparr>heap := h', board := b'\<rparr>)"

definition handleBridgeClick :: "game \<Rightarrow> bridge \<Rightarrow> game" where
  "handleBridgeClick g b =
     (if count' b > 1 then
        restoreOne
          (g\<lparr>bridgeList := map (\<lambda>c. if id' c = id' b then c\<lparr>count' := 1\<rparr> else c)
                              (bridgeList g)\<rparr>) b
      else
        restoreOne (g\<lparr>bridgeList := filter (\<lambda>c. id' c \<noteq> id' b) (bridgeList g)\<rparr>) b)"

section \<open>Win evaluator\<close>

text \<open>The win-check effect, lines 635-640.\<close>

definition winCheck :: "game \<Rightarrow> game" where
  "winCheck g =
     (if length (board g) > 0
      then g\<lparr>isGameWon := list_all (\<lambda>p. remainingConnections (obj g p) = 0) (board g)\<rparr>
      else g)"

section \<open>Ledger invariant and reachable states\<close>

text \<open>
  A bridge is incident to an island when one of its end points has the island's
  coordinates; \<open>incidentCount\<close> sums the counts of the bridges incident to an island.
\<close>

definition incident :: "game \<Rightarrow> bridge \<Rightarrow> point \<Rightarrow> bool" where
  "incident g b p \<longleftrightarrow> atEndpoints (obj g (start b)) (obj g (end' b)) p"

definition incidentCount :: "game \<Rightarrow> point \<Rightarrow> int" where
  "incidentCount g p = sum_list (map (\<lambda>b. if incident g b p then count' b else 0) (bridgeList g))"

definition ledgerOk :: "game \<Rightarrow> bool" where
  "ledgerOk g \<longleftrightarrow>
     list_all (\<lambda>p. remainingConnections p = value' p - incidentCount g p) (boardPoints g)"

text \<open>
  What every state of a game satisfies: the board and the bridges refer to allocated
  objects, a bridge is single or double, and bridge ids are pairwise different and below
  the id counter.
\<close>

definition wellFormed :: "game \<Rightarrow> bool" where
  "wellFormed g \<longleftrightarrow>
     list_all (\<lambda>a. a < length (heap g)) (board g) \<and>
     list_all (\<lambda>b. start b < length (heap g) \<and> end' b < length (heap g) \<and>
                    (count' b = 1 \<or> count' b = 2) \<and> id' b < nextId g) (bridgeList g) \<and>
     distinct (map id' (bridgeList g))"

text \<open>
  The states reachable from \<open>g0\<close>: a primary-cycle step applies \<open>addOrUpdateBridge\<close> to
  two point objects the validator accepts (any objects allocated so far, also ones no
  longer on the board); a reduction step applies \<open>handleBridgeClick\<close> to a bridge of the
  current bridge list.
\<close>

inductive reachable :: "game \<Rightarrow> game \<Rightarrow> bool" for g0 :: game where
  initial: "reachable g0 g0"
| primary: "reachable g0 g \<Longrightarrow> s < length (heap g) \<Longrightarrow> e < length (heap g) \<Longrightarrow>
            isValidConnection g s e \<Longrightarrow> reachable g0 (addOrUpdateBridge g s e)"
| reduce: "reachable g0 g \<Longrightarrow> b \<in> set (bridgeList g) \<Longrightarrow>
           reachable g0 (handleBridgeClick g b)"


section \<open>Loading a puzzle\<close>

text \<open>The fallback board of \<open>generateValidPuzzle\<close>, lines 247-263.\<close>

definition fallbackBoard :: "point list" where
  "fallbackBoard =
     [\<lparr>value' = 2, x = 0, y = 0, bridges = \<lparr>horizontal = 0, vertical = 0\<rparr>,
       remainingConnections = 2\<rparr>,
      \<lparr>value' = 2, x = 1, y = 0, bridges = \<lparr>horizontal = 0, vertical = 0\<rparr>,
       remainingConnections = 2\<rparr>]"

text \<open>
  The effect of lines 408-418 (and \<open>loadRandomPuzzle\<close>): the generated puzzle becomes the
  board, its points being fresh objects, and the bridge list is emptied.
\<close>

definition loadPuzzle :: "point list \<Rightarrow> game" where
  "loadPuzzle puzzle =
     \<lparr>heap = puzzle, board = [0..<length puzzle], bridgeList = [], selectedPoint = None,
      isGameWon = False, nextId = 0\<rparr>"

section \<open>Puzzle generation\<close>

text \<open>
  \<open>Math.random\<close> is modelled by a tape of natural numbers: \<open>Math.floor(Math.random() * n)\<close>
  reads the next number \<open>r\<close> of the tape and yields \<open>r mod n\<close>, so every value below \<open>n\<close>
  can come out. The tape is finite; a run that needs a number when the tape is used up
  has no result (\<open>None\<close>), as a run of the program that never leaves the sampling loop.
\<close>

type_synonym tape = "nat list"

definition randomBelow :: "nat \<Rightarrow> tape \<Rightarrow> (nat \<times> tape) option" where
  "randomBelow n t =
     (case t of [] \<Rightarrow> None | r # t' \<Rightarrow> Some (if n = 0 then 0 else r mod n, t'))"

datatype mode = Easy | Normal | Insane

record modeConfig =
  gridSize :: nat
  minIslands :: nat
  maxIslands :: nat

text \<open>\<open>MODES_CONFIG\<close>, lines 36-40.\<close>

fun MODES_CONFIG :: "mode \<Rightarrow> modeConfig" where
  "MODES_CONFIG Easy = \<lparr>gridSize = 5, minIslands = 5, maxIslands = 8\<rparr>"
| "MODES_CONFIG Normal = \<lparr>gridSize = 7, minIslands = 8, maxIslands = 14\<rparr>"
| "MODES_CONFIG Insane = \<lparr>gridSize = 9, minIslands = 12, maxIslands = 20\<rparr>"

text \<open>
  \<open>shuffleArray\<close>, lines 83-88: \<open>shuffleFrom i\<close> is the loop from index \<open>i\<close> down to 1.
\<close>

fun shuffleFrom :: "nat \<Rightarrow> 'a list \<Rightarrow> tape \<Rightarrow> ('a list \<times> tape) option" where
  "shuffleFrom 0 arr t = Some (arr, t)"
| "shuffleFrom (Suc i) arr t =
     (case randomBelow (Suc i + 1) t of
        None \<Rightarrow> None
      | Some (j, t') \<Rightarrow> shuffleFrom i (arr[Suc i := arr ! j, j := arr ! Suc i]) t')"

definition shuffleArray :: "'a list \<Rightarrow> tape \<Rightarrow> ('a list \<times> tape) option" where
  "shuffleArray arr t = shuffleFrom (length arr - 1) arr t"

text \<open>
  In the generator the point objects are the elements of the array \<open>islands\<close>, created
  once and then written to in place; a reference to a point is its index in that array.
  \<open>hasIslandInBetween\<close>, lines 101-117.
\<close>

definition hasIslandInBetween :: "ref \<Rightarrow> ref \<Rightarrow> point list \<Rightarrow> bool" where
  "hasIslandInBetween s e all =
     (let ps = all ! s; pe = all ! e in
      if x ps \<noteq> x pe \<and> y ps \<noteq> y pe then True
      else
        let minX = min (x ps) (x pe); maxX = max (x ps) (x pe);
            minY = min (y ps) (y pe); maxY = max (y ps) (y pe)
        in list_ex (\<lambda>p.
             if p = s \<or> p = e then False
             else if x ps = x pe then x (all ! p) = x ps \<and> y (all ! p) > minY \<and> y (all ! p) < maxY
             else y (all ! p) = y ps \<and> x (all ! p) > minX \<and> x (all ! p) < maxX)
           [0..<length all])"

text \<open>
  \<open>unionFindInit\<close>, lines 122-138. The map \<open>parent\<close> is a list indexed by the point
  references. \<open>find\<close> may not return on a map with a cycle, and a key that is not in the
  map has no parent (the source asserts with \<open>!\<close> that this does not happen). Each
  operation returns the map as it has left it. \<open>find\<close> and \<open>union\<close> are written
  \<open>find'\<close> and \<open>union'\<close>.
\<close>

definition unionFindInit :: "point list \<Rightarrow> nat list" where
  "unionFindInit points = [0..<length points]"

partial_function (option) find' :: "nat list \<Rightarrow> ref \<Rightarrow> (ref \<times> nat list) option" where
  "find' parent a =
     (if a \<ge> length parent then None
      else if parent ! a \<noteq> a then
        Option.bind (find' parent (parent ! a))
          (\<lambda>(r, parent1). let parent2 = parent1[a := r] in Some (parent2 ! a, parent2))
      else Some (parent ! a, parent))"

declare find'.simps [code]

definition union' :: "nat list \<Rightarrow> ref \<Rightarrow> ref \<Rightarrow> nat list option" where
  "union' parent a b =
     Option.bind (find' parent b) (\<lambda>(rb, parent1).
     Option.bind (find' parent1 a) (\<lambda>(ra, parent2).
     Some (parent2[rb := ra])))"

definition sameSet :: "nat list \<Rightarrow> ref \<Rightarrow> ref \<Rightarrow> (bool \<times> nat list) option" where
  "sameSet parent a b =
     Option.bind (find' parent a) (\<lambda>(ra, parent1).
     Option.bind (find' parent1 b) (\<lambda>(rb, parent2).
     Some (ra = rb, parent2)))"

text \<open>The sampling loop for the positions, lines 155-162.\<close>

function samplePositions ::
  "nat \<Rightarrow> nat \<Rightarrow> (int \<times> int) list \<Rightarrow> tape \<Rightarrow> ((int \<times> int) list \<times> tape) option" where
  "samplePositions islandCount gsize positions t =
     (if length positions < islandCount then
        (case randomBelow gsize t of
           None \<Rightarrow> None
         | Some (px, t1) \<Rightarrow>
             (case randomBelow gsize t1 of
                None \<Rightarrow> None
              | Some (py, t2) \<Rightarrow>
                  if \<not> list_ex (\<lambda>p. fst p = int px \<and> snd p = int py) positions
                  then samplePositions islandCount gsize (positions @ [(int px, int py)]) t2
                  else samplePositions islandCount gsize positions t2))
      else Some (positions, t))"
  by pat_completeness auto
termination
  by (relation "measure (\<lambda>(islandCount, gsize, positions, t). length t)")
     (auto simp: randomBelow_def split: list.splits)

text \<open>The list of potential edges, lines 174-185.\<close>

definition potentialEdges :: "point list \<Rightarrow> edge list" where
  "potentialEdges islands =
     concat (map (\<lambda>i.
       concat (map (\<lambda>j.
         if x (islands ! i) = x (islands ! j) \<or> y (islands ! i) = y (islands ! j) then
           (if \<not> hasIslandInBetween i j islands then [\<lparr>start = i, end' = j\<rparr>] else [])
         else [])
         [i + 1..<length islands]))
       [0..<length islands])"

text \<open>The spanning tree loop, lines 197-202.\<close>

fun mstLoop :: "edge list \<Rightarrow> nat list \<Rightarrow> usedEdge list \<Rightarrow> (usedEdge list \<times> nat list) option" where
  "mstLoop [] parent usedEdges = Some (usedEdges, parent)"
| "mstLoop (e # es) parent usedEdges =
     (case sameSet parent (start e) (end' e) of
        None \<Rightarrow> None
      | Some (same, parent1) \<Rightarrow>
          if \<not> same then
            (case union' parent1 (start e) (end' e) of
               None \<Rightarrow> None
             | Some parent2 \<Rightarrow>
                 mstLoop es parent2
                   (usedEdges @ [\<lparr>start = start e, end' = end' e, count' = 1\<rparr>]))
          else mstLoop es parent1 usedEdges)"

text \<open>
  The loop that adds or upgrades edges, lines 207-226; \<open>find\<close> gives the first matching
  element of \<open>usedEdges\<close>, which is then written to in place.
\<close>

fun extrasLoop :: "edge list \<Rightarrow> nat \<Rightarrow> usedEdge list \<Rightarrow> usedEdge list" where
  "extrasLoop [] extrasToAdd usedEdges = usedEdges"
| "extrasLoop (e # es) extrasToAdd usedEdges =
     (if extrasToAdd \<le> 0 then usedEdges
      else
        (case findIndex (\<lambda>ue. (start ue = start e \<and> end' ue = end' e) \<or>
                               (start ue = end' e \<and> end' ue = start e)) usedEdges of
           Some k \<Rightarrow>
             (let existing = usedEdges ! k in
              if count' existing < 2
              then extrasLoop es (extrasToAdd - 1) (usedEdges[k := existing\<lparr>count' := 2\<rparr>])
              else extrasLoop es extrasToAdd usedEdges)
         | None \<Rightarrow>
             extrasLoop es (extrasToAdd - 1)
               (usedEdges @ [\<lparr>start = start e, end' = end' e, count' = 1\<rparr>])))"

text \<open>The summation of lines 229-232, writing to the points of \<open>islands\<close>.\<close>

fun addValues :: "usedEdge list \<Rightarrow> point list \<Rightarrow> point list" where
  "addValues [] islands = islands"
| "addValues (ed # eds) islands =
     (let islands1 = islands[start ed :=
            (islands ! start ed)\<lparr>value' := value' (islands ! start ed) + count' ed\<rparr>];
          islands2 = islands1[end' ed :=
            (islands1 ! end' ed)\<lparr>value' := value' (islands1 ! end' ed) + count' ed\<rparr>]
      in addValues eds islands2)"

text \<open>The point objects created for the sampled positions, lines 165-171.\<close>

definition newIslands :: "(int \<times> int) list \<Rightarrow> point list" where
  "newIslands positions =
     map (\<lambda>pos. \<lparr>value' = 0, x = fst pos, y = snd pos,
                     bridges = \<lparr>horizontal = 0, vertical = 0\<rparr>,
                     remainingConnections = 0\<rparr>) positions"

text \<open>
  One pass of the body of the attempt loop, lines 151-244: no result when the tape runs
  out, otherwise the rest of the tape with \<open>None\<close> for \<open>continue\<close> (the board is
  discarded) or the board returned.
\<close>

definition attemptOnce :: "mode \<Rightarrow> tape \<Rightarrow> (point list option \<times> tape) option" where
  "attemptOnce m t = do {
     let cfg = MODES_CONFIG m;
     (r, t1) \<leftarrow> randomBelow (maxIslands cfg - minIslands cfg + 1) t;
     let islandCount = r + minIslands cfg;
     (positions, t2) \<leftarrow> samplePositions islandCount (gridSize cfg) [] t1;
     let islands = newIslands positions;
     let potential = potentialEdges islands;
     (potential1, t3) \<leftarrow> shuffleArray potential t2;
     (usedEdges, parent) \<leftarrow> mstLoop potential1 (unionFindInit islands) [];
     let extrasToAdd = length islands div 2;
     (potential2, t4) \<leftarrow> shuffleArray potential1 t3;
     let usedEdges2 = extrasLoop potential2 extrasToAdd usedEdges;
     let islands2 = addValues usedEdges2 islands;
     if list_ex (\<lambda>i. value' i = 0) islands2 then Some (None, t4)
     else Some (Some (map (\<lambda>p. p\<lparr>remainingConnections := value' p\<rparr>) islands2), t4)
   }"

text \<open>The attempt loop of \<open>generateValidPuzzle\<close>, from attempt number \<open>attempt\<close> on.\<close>

function attemptLoop :: "mode \<Rightarrow> nat \<Rightarrow> tape \<Rightarrow> point list option" where
  "attemptLoop m attempt t =
     (if attempt < 100 then
        (case attemptOnce m t of
           None \<Rightarrow> None
         | Some (None, t') \<Rightarrow> attemptLoop m (attempt + 1) t'
         | Some (Some puzzle, t') \<Rightarrow> Some puzzle)
      else Some fallbackBoard)"
  by pat_completeness auto
termination
  by (relation "measure (\<lambda>(m, attempt, t). 100 - attempt)") auto

definition generateValidPuzzle :: "mode \<Rightarrow> tape \<Rightarrow> point list option" where
  "generateValidPuzzle m t = attemptLoop m 0 t"

text \<open>
  A run of \<open>n\<close> attempts in a row that all end in \<open>continue\<close>.
\<close>

fun rejectedRun :: "mode \<Rightarrow> nat \<Rightarrow> tape \<Rightarrow> bool" where
  "rejectedRun m 0 t = True"
| "rejectedRun m (Suc n) t =
     (case attemptOnce m t of
        Some (None, t') \<Rightarrow> rejectedRun m n t'
      | _ \<Rightarrow> False)"

section \<open>Auxiliary notions for the proofs\<close>

text \<open>
  The test both \<open>hasIslandInBetween\<close> and \<open>isValidConnection\<close> apply to a point \<open>p\<close> of
  the board: \<open>p\<close> lies strictly between the two end points, on their column when they
  have the same \<open>x\<close>, on their row otherwise.
\<close>

definition liesBetween :: "point \<Rightarrow> point \<Rightarrow> point \<Rightarrow> bool" where
  "liesBetween ps pe p \<longleftrightarrow>
     (if x ps = x pe
      then x p = x ps \<and> min (y ps) (y pe) < y p \<and> y p < max (y ps) (y pe)
      else y p = y ps \<and> min (x ps) (x pe) < x p \<and> x p < max (x ps) (x pe))"

text \<open>
  The legality contract in the words of the specification (section 4.6), to compare with
  \<open>isValidConnection\<close>: start and end differ, share exactly one coordinate, both have
  connections left, and no third island lies strictly between them.
\<close>

definition isLegalSpec :: "game \<Rightarrow> ref \<Rightarrow> ref \<Rightarrow> bool" where
  "isLegalSpec g s e \<longleftrightarrow>
     s \<noteq> e \<and>
     ((x (obj g s) = x (obj g e)) \<noteq> (y (obj g s) = y (obj g e))) \<and>
     remainingConnections (obj g s) > 0 \<and> remainingConnections (obj g e) > 0 \<and>
     \<not> list_ex (\<lambda>p. p \<noteq> s \<and> p \<noteq> e \<and> liesBetween (obj g s) (obj g e) (obj g p)) (board g)"

text \<open>What a board update by coordinates does to one point, and the sum of the counts of
  the bridges of a list that touch a point, read in a given store.\<close>

definition bump :: "point \<Rightarrow> point \<Rightarrow> int \<Rightarrow> point \<Rightarrow> point" where
  "bump ps pe c p =
     (if atEndpoints ps pe p then p\<lparr>remainingConnections := remainingConnections p - c\<rparr> else p)"

definition incSum :: "point list \<Rightarrow> bridge list \<Rightarrow> point \<Rightarrow> int" where
  "incSum h bs p =
     sum_list (map (\<lambda>b. if atEndpoints (h ! start b) (h ! end' b) p then count' b else 0) bs)"

text \<open>
  Two tapes for the examples. On \<open>rowTape\<close> the first attempt in mode \<open>Easy\<close> places five
  islands in a row and is accepted. On \<open>diagonalTape\<close> each of 100 attempts places five
  islands on the diagonal, where no two islands share a row or a column, and is rejected.
\<close>

definition rowTape :: tape where
  "rowTape = [0, 0, 0, 1, 0, 2, 0, 3, 0, 4, 0, 1, 1, 1, 0, 0, 2]"

definition diagonalTape :: tape where
  "diagonalTape = concat (replicate 100 [0, 0, 0, 1, 1, 2, 2, 3, 3, 4, 4])"

text \<open>
  The meaning of a \<open>parent\<close> map: \<open>repOf parent a r\<close> holds when following the parents
  from \<open>a\<close> ends in the root \<open>r\<close>. A map is a union-find forest when every key has a root;
  two keys are in the same component when they have the same root.
\<close>

inductive repOf :: "nat list \<Rightarrow> nat \<Rightarrow> nat \<Rightarrow> bool" for parent :: "nat list" where
  root: "a < length parent \<Longrightarrow> parent ! a = a \<Longrightarrow> repOf parent a a"
| step: "a < length parent \<Longrightarrow> parent ! a \<noteq> a \<Longrightarrow> repOf parent (parent ! a) r \<Longrightarrow>
         repOf parent a r"

definition ufInv :: "nat list \<Rightarrow> bool" where
  "ufInv parent \<longleftrightarrow> (\<forall>a<length parent. \<exists>r. repOf parent a r)"

definition sameComponent :: "nat list \<Rightarrow> nat \<Rightarrow> nat \<Rightarrow> bool" where
  "sameComponent parent a b \<longleftrightarrow> (\<exists>r. repOf parent a r \<and> repOf parent b r)"

definition roots :: "nat list \<Rightarrow> nat set" where
  "roots parent = {a. a < length parent \<and> parent ! a = a}"

text \<open>
  The candidate graph: two points are linked by a list of edges when a path of these
  edges, taken in either direction, leads from one to the other; the graph on the points
  \<open>0, ..., k - 1\<close> is connected when every two of them are linked.
\<close>

definition edgeRel :: "edge list \<Rightarrow> (nat \<times> nat) set" where
  "edgeRel es = (\<lambda>e. (start e, end' e)) ` set es"

definition linked :: "edge list \<Rightarrow> nat \<Rightarrow> nat \<Rightarrow> bool" where
  "linked es a b \<longleftrightarrow> (a, b) \<in> (edgeRel es \<union> (edgeRel es)\<inverse>)\<^sup>*"

definition graphConnected :: "nat \<Rightarrow> edge list \<Rightarrow> bool" where
  "graphConnected k es \<longleftrightarrow> (\<forall>a<k. \<forall>b<k. linked es a b)"

text \<open>
  The spanning tree construction in the words of the specification (section 4.3): going
  through the candidate list, an edge is accepted, with count 1, if and only if its end
  points are not yet in the same component, that is, not linked by the edges seen before.
\<close>

fun acceptedSpec :: "edge list \<Rightarrow> edge list \<Rightarrow> usedEdge list" where
  "acceptedSpec seen [] = []"
| "acceptedSpec seen (e # es) =
     (if linked seen (start e) (end' e) then acceptedSpec (seen @ [e]) es
      else \<lparr>start = start e, end' = end' e, count' = 1\<rparr> # acceptedSpec (seen @ [e]) es)"

text \<open>
  Notions for the bound on the values: the islands of a board are apart when no two of
  them are at the same place; the line between two islands is clear when they share a
  row or a column and no third island lies strictly between them; \<open>dirOf\<close> numbers the
  four directions in which a neighbour can lie.
\<close>

definition apart :: "point list \<Rightarrow> bool" where
  "apart pts \<longleftrightarrow>
     (\<forall>i<length pts. \<forall>j<length pts. i \<noteq> j \<longrightarrow> x (pts ! i) \<noteq> x (pts ! j) \<or> y (pts ! i) \<noteq> y (pts ! j))"

definition clearLine :: "point list \<Rightarrow> nat \<Rightarrow> nat \<Rightarrow> bool" where
  "clearLine pts i j \<longleftrightarrow>
     (x (pts ! i) = x (pts ! j) \<or> y (pts ! i) = y (pts ! j)) \<and>
     (\<forall>p<length pts. p \<noteq> i \<and> p \<noteq> j \<longrightarrow> \<not> liesBetween (pts ! i) (pts ! j) (pts ! p))"

definition dirOf :: "point \<Rightarrow> point \<Rightarrow> nat" where
  "dirOf pi pj =
     (if x pj = x pi then (if y pj > y pi then 0 else 1) else (if x pj > x pi then 2 else 3))"




section \<open>The bridge ledger keeps its books\<close>

subsection \<open>Board updates\<close>


lemma mapBoard_spec:
  "\<forall>a\<in>set bs. a < length h \<Longrightarrow> mapBoard f h bs = (h', bs') \<Longrightarrow>
     (\<exists>ext. h' = h @ ext) \<and> length bs' = length bs \<and> (\<forall>a\<in>set bs'. a < length h') \<and>
     map ((!) h') bs' = map (\<lambda>a. case f (h ! a) of None \<Rightarrow> h ! a | Some q \<Rightarrow> q) bs"
proof (induction bs arbitrary: h h' bs')
  case Nil
  then show ?case by simp
next
  case (Cons p ps)
  show ?case
  proof (cases "f (h ! p)")
    case None
    obtain h1 ps1 where r: "mapBoard f h ps = (h1, ps1)" by (cases "mapBoard f h ps")
    from Cons.prems(2) None r have eq: "h' = h1" "bs' = p # ps1" by auto
    from Cons.prems(1) have ps: "\<forall>a\<in>set ps. a < length h" and p: "p < length h" by auto
    from Cons.IH[OF ps r] obtain ext where
      ih: "h1 = h @ ext" "length ps1 = length ps" "\<forall>a\<in>set ps1. a < length h1"
          "map ((!) h1) ps1 = map (\<lambda>a. case f (h ! a) of None \<Rightarrow> h ! a | Some q \<Rightarrow> q) ps"
      by blast
    have "h1 ! p = h ! p" using ih(1) p by (simp add: nth_append)
    with ih eq None p show ?thesis by auto
  next
    case (Some q)
    obtain h1 ps1 where r: "mapBoard f (h @ [q]) ps = (h1, ps1)"
      by (cases "mapBoard f (h @ [q]) ps")
    from Cons.prems(2) Some r have eq: "h' = h1" "bs' = length h # ps1" by auto
    from Cons.prems(1) have ps: "\<forall>a\<in>set ps. a < length (h @ [q])" and p: "p < length h" by auto
    from Cons.IH[OF ps r] obtain ext where
      ih: "h1 = (h @ [q]) @ ext" "length ps1 = length ps" "\<forall>a\<in>set ps1. a < length h1"
          "map ((!) h1) ps1 = map (\<lambda>a. case f ((h @ [q]) ! a) of None \<Rightarrow> (h @ [q]) ! a | Some q \<Rightarrow> q) ps"
      by blast
    have a: "map (\<lambda>a. case f ((h @ [q]) ! a) of None \<Rightarrow> (h @ [q]) ! a | Some q \<Rightarrow> q) ps
           = map (\<lambda>a. case f (h ! a) of None \<Rightarrow> h ! a | Some q \<Rightarrow> q) ps"
      using Cons.prems(1) by (auto simp: nth_append split: option.splits)
    have "h1 ! length h = q" using ih(1) by (simp add: nth_append)
    with ih eq Some p a show ?thesis by auto
  qed
qed

lemma updatePointConnections_spec:
  fixes g s e c
  defines "g' \<equiv> updatePointConnections g s e c"
  assumes "list_all (\<lambda>a. a < length (heap g)) (board g)"
  shows "\<exists>ext. heap g' = heap g @ ext"
    and "list_all (\<lambda>a. a < length (heap g')) (board g')"
    and "boardPoints g' = map (bump (obj g s) (obj g e) c) (boardPoints g)"
    and "bridgeList g' = bridgeList g" and "nextId g' = nextId g"
    and "selectedPoint g' = selectedPoint g" and "isGameWon g' = isGameWon g"
proof -
  let ?f = "\<lambda>p. if atEndpoints (obj g s) (obj g e) p
            then Some (p\<lparr>remainingConnections := remainingConnections p - c\<rparr>)
            else None"
  obtain h' b' where r: "mapBoard ?f (heap g) (board g) = (h', b')"
    by (cases "mapBoard ?f (heap g) (board g)")
  have g': "g' = g\<lparr>heap := h', board := b'\<rparr>"
    unfolding g'_def updatePointConnections_def using r by simp
  from assms(2) have bnd: "\<forall>a\<in>set (board g). a < length (heap g)"
    by (simp add: list_all_iff)
  note sp = mapBoard_spec[OF bnd r]
  from sp show "\<exists>ext. heap g' = heap g @ ext" by (simp add: g')
  from sp show "list_all (\<lambda>a. a < length (heap g')) (board g')" by (simp add: g' list_all_iff)
  have "map ((!) h') b' = map (\<lambda>a. bump (obj g s) (obj g e) c (heap g ! a)) (board g)"
    using sp by (auto simp: bump_def split: option.splits)
  then show "boardPoints g' = map (bump (obj g s) (obj g e) c) (boardPoints g)"
    by (simp add: boardPoints_def g' obj_def[abs_def])
  show "bridgeList g' = bridgeList g" "nextId g' = nextId g"
    "selectedPoint g' = selectedPoint g" "isGameWon g' = isGameWon g" by (simp_all add: g')
qed


lemma restoreOne_eq: "restoreOne g b = updatePointConnections g (start b) (end' b) (- 1)"
  by (simp add: restoreOne_def updatePointConnections_def cong: if_cong)

subsection \<open>Sums over the bridge list\<close>

lemma sum_list_removeAt:
  "i < length bs \<Longrightarrow> sum_list (map f (removeAt i bs)) = sum_list (map f bs) - (f (bs ! i) :: int)"
proof (induction i bs rule: removeAt.induct)
  case (1 i)
  then show ?case by simp
next
  case (2 b bs)
  then show ?case by simp
next
  case (3 i b bs)
  then show ?case by simp
qed

lemma sum_list_update_int:
  "i < length bs \<Longrightarrow>
   sum_list (map f (bs[i := v])) = sum_list (map f bs) - f (bs ! i) + (f v :: int)"
proof (induction bs arbitrary: i)
  case Nil
  then show ?case by simp
next
  case (Cons b bs)
  then show ?case by (cases i) simp_all
qed

lemma sum_list_map_key:
  "distinct (map k bs) \<Longrightarrow> b \<in> set bs \<Longrightarrow>
   sum_list (map f (map (\<lambda>c. if k c = k b then u c else c) bs))
     = sum_list (map f bs) - f b + (f (u b) :: int)"
proof (induction bs)
  case Nil
  then show ?case by simp
next
  case (Cons c cs)
  show ?case
  proof (cases "c = b")
    case True
    with Cons.prems(1) have "k b \<notin> k ` set cs" by simp
    then have "\<forall>d\<in>set cs. k d \<noteq> k b" by (metis image_eqI)
    then have "map (\<lambda>c. if k c = k b then u c else c) cs = cs"
      by (induction cs) auto
    with True show ?thesis by simp
  next
    case False
    with Cons.prems have mem: "b \<in> set cs" and "k c \<noteq> k b" by auto
    with Cons show ?thesis by simp
  qed
qed

lemma sum_list_filter_key:
  "distinct (map k bs) \<Longrightarrow> b \<in> set bs \<Longrightarrow>
   sum_list (map f (filter (\<lambda>c. k c \<noteq> k b) bs)) = sum_list (map f bs) - (f b :: int)"
proof (induction bs)
  case Nil
  then show ?case by simp
next
  case (Cons c cs)
  show ?case
  proof (cases "c = b")
    case True
    with Cons.prems(1) have "k b \<notin> k ` set cs" by simp
    then have "\<forall>d\<in>set cs. k d \<noteq> k b" by (metis image_eqI)
    then have "filter (\<lambda>c. k c \<noteq> k b) cs = cs"
      by (induction cs) auto
    with True show ?thesis by simp
  next
    case False
    with Cons.prems have mem: "b \<in> set cs" and "k c \<noteq> k b" by auto
    with Cons show ?thesis by simp
  qed
qed

subsection \<open>Lookup by \<open>findIndex\<close>\<close>

lemma findIndex_Some:
  "findIndex P bs = Some i \<Longrightarrow> i < length bs \<and> P (bs ! i) \<and> (\<forall>j<i. \<not> P (bs ! j))"
proof (induction bs arbitrary: i)
  case Nil
  then show ?case by simp
next
  case (Cons b bs)
  show ?case
  proof (cases "P b")
    case True
    with Cons.prems show ?thesis by simp
  next
    case False
    with Cons.prems obtain j where j: "findIndex P bs = Some j" "i = Suc j" by auto
    from Cons.IH[OF j(1)] False j(2) show ?thesis
      by (auto simp: less_Suc_eq_0_disj)
  qed
qed

lemma findIndex_None: "findIndex P bs = None \<longleftrightarrow> (\<forall>b\<in>set bs. \<not> P b)"
  by (induction bs) auto

lemma set_removeAt: "set (removeAt i bs) \<subseteq> set bs"
  by (induction i bs rule: removeAt.induct) auto

lemma distinct_map_removeAt: "distinct (map k bs) \<Longrightarrow> distinct (map k (removeAt i bs))"
proof (induction i bs rule: removeAt.induct)
  case (3 i b bs)
  then show ?case using set_removeAt[of i bs] by auto
qed simp_all


subsection \<open>The ledger equation through one step\<close>

lemma incidentCount_incSum: "incidentCount g p = incSum (heap g) (bridgeList g) p"
  by (simp add: incidentCount_def incSum_def incident_def obj_def)

lemma incSum_append_heap:
  "\<forall>b\<in>set bs. start b < length h \<and> end' b < length h \<Longrightarrow>
   incSum (h @ ext) bs p = incSum h bs p"
  unfolding incSum_def by (rule arg_cong[where f = sum_list]) (simp add: nth_append)

lemma atEndpoints_bump [simp]: "atEndpoints ps pe (bump qs qe c p) = atEndpoints ps pe p"
  by (simp add: bump_def atEndpoints_def)

lemma incSum_bump [simp]: "incSum h bs (bump qs qe c p) = incSum h bs p"
  by (simp add: incSum_def)

lemma atEndpoints_commute: "atEndpoints ps pe p = atEndpoints pe ps p"
  by (auto simp: atEndpoints_def)

text \<open>
  If a step changes the board by \<open>bump\<close> with \<open>c\<close> and the sum of incident counts of every
  point at the two end points by \<open>c\<close> as well, the ledger equation is kept.
\<close>

lemma ledger_step:
  assumes ok: "ledgerOk g"
    and isl: "boardPoints g' = map (bump ps pe c) (boardPoints g)"
    and cnt: "\<And>p. incidentCount g' p = incidentCount g p + (if atEndpoints ps pe p then c else 0)"
  shows "ledgerOk g'"
proof -
  have "remainingConnections (bump ps pe c p) = value' (bump ps pe c p) - incidentCount g' (bump ps pe c p)"
    if "p \<in> set (boardPoints g)" for p
  proof -
    from ok that have eq: "remainingConnections p = value' p - incidentCount g p"
      by (simp add: ledgerOk_def list_all_iff)
    have "incidentCount g' (bump ps pe c p) = incidentCount g p + (if atEndpoints ps pe p then c else 0)"
      using cnt[of "bump ps pe c p"] by (simp add: incidentCount_incSum)
    with eq show ?thesis by (simp add: bump_def)
  qed
  then show ?thesis by (simp add: ledgerOk_def list_all_iff isl)
qed

text \<open>A board update after a change of the bridge list, in terms of \<open>incSum\<close>.\<close>

lemma update_after_bridges:
  assumes wf: "wellFormed g"
    and bnd: "\<forall>b\<in>set bs'. start b < length (heap g) \<and> end' b < length (heap g)"
    and ok: "ledgerOk g"
    and sum: "\<And>p. incSum (heap g) bs' p
                = incSum (heap g) (bridgeList g) p + (if atEndpoints (obj g s) (obj g e) p then c else 0)"
  shows "ledgerOk (updatePointConnections (g\<lparr>bridgeList := bs', nextId := n\<rparr>) s e c)"
proof -
  let ?g1 = "g\<lparr>bridgeList := bs', nextId := n\<rparr>"
  let ?g' = "updatePointConnections ?g1 s e c"
  from wf have b1: "list_all (\<lambda>a. a < length (heap ?g1)) (board ?g1)"
    by (simp add: wellFormed_def)
  note sp = updatePointConnections_spec[OF b1, of s e c]
  from sp(1) obtain ext where ext: "heap ?g' = heap g @ ext" by auto
  have isl: "boardPoints ?g' = map (bump (obj g s) (obj g e) c) (boardPoints g)"
    using sp(3) by (simp add: boardPoints_def obj_def[abs_def])
  have cnt: "incidentCount ?g' p = incidentCount g p + (if atEndpoints (obj g s) (obj g e) p then c else 0)" for p
  proof -
    have "incidentCount ?g' p = incSum (heap g @ ext) bs' p"
      using sp(4) ext by (simp add: incidentCount_incSum)
    also have "\<dots> = incSum (heap g) bs' p" using bnd by (rule incSum_append_heap)
    finally show ?thesis using sum[of p] by (simp add: incidentCount_incSum)
  qed
  from ok isl cnt show ?thesis by (rule ledger_step)
qed


lemma updatePointConnections_wf:
  assumes wf: "wellFormed g"
  shows "wellFormed (updatePointConnections g s e c)"
proof -
  let ?g' = "updatePointConnections g s e c"
  from wf have b: "list_all (\<lambda>a. a < length (heap g)) (board g)"
    by (simp add: wellFormed_def)
  note sp = updatePointConnections_spec[OF b, of s e c]
  from sp(1) obtain ext where ext: "heap ?g' = heap g @ ext" by auto
  have len: "length (heap g) \<le> length (heap ?g')" by (simp add: ext)
  from wf have "list_all (\<lambda>b. start b < length (heap g) \<and> end' b < length (heap g) \<and>
                    (count' b = 1 \<or> count' b = 2) \<and> id' b < nextId g) (bridgeList g)"
    by (simp add: wellFormed_def)
  with len have "list_all (\<lambda>b. start b < length (heap ?g') \<and> end' b < length (heap ?g') \<and>
                    (count' b = 1 \<or> count' b = 2) \<and> id' b < nextId g) (bridgeList g)"
    by (auto simp: list_all_iff)
  with sp(2,4,5) wf show ?thesis by (simp add: wellFormed_def)
qed

lemma addOrUpdateBridge_wf:
  assumes wf: "wellFormed g" and s: "s < length (heap g)" and e: "e < length (heap g)"
  shows "wellFormed (addOrUpdateBridge g s e)"
proof -
  let ?P = "\<lambda>b. (start b = s \<and> end' b = e) \<or> (start b = e \<and> end' b = s)"
  let ?ok = "\<lambda>b. start b < length (heap g) \<and> end' b < length (heap g) \<and>
                 (count' b = 1 \<or> count' b = 2) \<and> id' b < nextId g"
  from wf have brd: "list_all (\<lambda>a. a < length (heap g)) (board g)"
    and bs: "\<forall>b\<in>set (bridgeList g). ?ok b" and dist: "distinct (map id' (bridgeList g))"
    by (simp_all add: wellFormed_def list_all_iff)
  show ?thesis
  proof (cases "findIndex ?P (bridgeList g)")
    case None
    let ?nb = "\<lparr>start = s, end' = e, count' = 1, id' = nextId g,
                isVertical = (x (obj g s) = x (obj g e))\<rparr>"
    let ?g1 = "g\<lparr>bridgeList := bridgeList g @ [?nb], nextId := Suc (nextId g)\<rparr>"
    have "nextId g \<notin> id' ` set (bridgeList g)" using bs by auto
    with brd bs dist s e have "wellFormed ?g1"
      by (auto simp: wellFormed_def list_all_iff less_Suc_eq)
    then have "wellFormed (updatePointConnections ?g1 s e 1)"
      by (rule updatePointConnections_wf)
    with None show ?thesis by (simp add: addOrUpdateBridge_def)
  next
    case (Some i)
    from findIndex_Some[OF Some] have i: "i < length (bridgeList g)" by simp
    let ?ex = "bridgeList g ! i"
    from i bs have ex: "?ok ?ex" by simp
    show ?thesis
    proof (cases "count' ?ex \<ge> 2")
      case True
      let ?g1 = "g\<lparr>bridgeList := removeAt i (bridgeList g)\<rparr>"
      have "wellFormed ?g1"
        using brd bs dist set_removeAt[of i "bridgeList g"] distinct_map_removeAt[OF dist, of i]
        by (auto simp: wellFormed_def list_all_iff)
      then have "wellFormed (updatePointConnections ?g1 s e (- 2))"
        by (rule updatePointConnections_wf)
      with Some True show ?thesis by (simp add: addOrUpdateBridge_def)
    next
      case False
      let ?g1 = "g\<lparr>bridgeList := (bridgeList g)[i := ?ex\<lparr>count' := 2\<rparr>]\<rparr>"
      have m: "map id' ((bridgeList g)[i := ?ex\<lparr>count' := 2\<rparr>]) = map id' (bridgeList g)"
        using i by (simp add: map_update list_update_same_conv)
      have "\<forall>b\<in>set ((bridgeList g)[i := ?ex\<lparr>count' := 2\<rparr>]). ?ok b"
      proof
        fix b assume "b \<in> set ((bridgeList g)[i := ?ex\<lparr>count' := 2\<rparr>])"
        then have "b = ?ex\<lparr>count' := 2\<rparr> \<or> b \<in> set (bridgeList g)"
          using set_update_subset_insert[of "bridgeList g" i] by auto
        with bs ex show "?ok b" by auto
      qed
      with brd dist m have "wellFormed ?g1"
        by (simp add: wellFormed_def list_all_iff)
      then have "wellFormed (updatePointConnections ?g1 s e 1)"
        by (rule updatePointConnections_wf)
      with Some False show ?thesis by (simp add: addOrUpdateBridge_def)
    qed
  qed
qed

lemma addOrUpdateBridge_ledger:
  assumes wf: "wellFormed g" and ok: "ledgerOk g"
    and s: "s < length (heap g)" and e: "e < length (heap g)"
  shows "ledgerOk (addOrUpdateBridge g s e)"
proof -
  let ?P = "\<lambda>b. (start b = s \<and> end' b = e) \<or> (start b = e \<and> end' b = s)"
  let ?ok = "\<lambda>b. start b < length (heap g) \<and> end' b < length (heap g) \<and>
                 (count' b = 1 \<or> count' b = 2) \<and> id' b < nextId g"
  let ?w = "\<lambda>p b. if atEndpoints (heap g ! start b) (heap g ! end' b) p then count' b else 0"
  from wf have bs: "\<forall>b\<in>set (bridgeList g). ?ok b"
    by (simp_all add: wellFormed_def list_all_iff)
  show ?thesis
  proof (cases "findIndex ?P (bridgeList g)")
    case None
    let ?nb = "\<lparr>start = s, end' = e, count' = 1, id' = nextId g,
                isVertical = (x (obj g s) = x (obj g e))\<rparr>"
    have "ledgerOk (updatePointConnections
            (g\<lparr>bridgeList := bridgeList g @ [?nb], nextId := Suc (nextId g)\<rparr>) s e 1)"
    proof (rule update_after_bridges[OF wf _ ok])
      show "\<forall>b\<in>set (bridgeList g @ [?nb]). start b < length (heap g) \<and> end' b < length (heap g)"
        using bs s e by auto
      show "incSum (heap g) (bridgeList g @ [?nb]) p
            = incSum (heap g) (bridgeList g) p + (if atEndpoints (obj g s) (obj g e) p then 1 else 0)" for p
        by (simp add: incSum_def obj_def)
    qed
    with None show ?thesis by (simp add: addOrUpdateBridge_def)
  next
    case (Some i)
    from findIndex_Some[OF Some] have i: "i < length (bridgeList g)"
      and Pi: "?P (bridgeList g ! i)" by simp_all
    let ?ex = "bridgeList g ! i"
    from i bs have ex: "?ok ?ex" by simp
    have inc: "atEndpoints (heap g ! start ?ex) (heap g ! end' ?ex) p
               = atEndpoints (obj g s) (obj g e) p" for p
      using Pi atEndpoints_commute[of "heap g ! e" "heap g ! s" p] by (auto simp: obj_def)
    show ?thesis
    proof (cases "count' ?ex \<ge> 2")
      case True
      with ex have c2: "count' ?ex = 2" by auto
      have "ledgerOk (updatePointConnections
              (g\<lparr>bridgeList := removeAt i (bridgeList g), nextId := nextId g\<rparr>) s e (- 2))"
      proof (rule update_after_bridges[OF wf _ ok])
        show "\<forall>b\<in>set (removeAt i (bridgeList g)). start b < length (heap g) \<and> end' b < length (heap g)"
          using bs set_removeAt[of i "bridgeList g"] by auto
        show "incSum (heap g) (removeAt i (bridgeList g)) p
            = incSum (heap g) (bridgeList g) p + (if atEndpoints (obj g s) (obj g e) p then - 2 else 0)" for p
          unfolding incSum_def using sum_list_removeAt[OF i, of "?w p"] inc[of p] c2 by simp
      qed
      with Some True show ?thesis by (simp add: addOrUpdateBridge_def)
    next
      case False
      with ex have c1: "count' ?ex = 1" by auto
      have "ledgerOk (updatePointConnections
              (g\<lparr>bridgeList := (bridgeList g)[i := ?ex\<lparr>count' := 2\<rparr>], nextId := nextId g\<rparr>) s e 1)"
      proof (rule update_after_bridges[OF wf _ ok])
        show "\<forall>b\<in>set ((bridgeList g)[i := ?ex\<lparr>count' := 2\<rparr>]).
                 start b < length (heap g) \<and> end' b < length (heap g)"
        proof
          fix b assume "b \<in> set ((bridgeList g)[i := ?ex\<lparr>count' := 2\<rparr>])"
          then have "b = ?ex\<lparr>count' := 2\<rparr> \<or> b \<in> set (bridgeList g)"
            using set_update_subset_insert[of "bridgeList g" i] by auto
          with bs ex show "start b < length (heap g) \<and> end' b < length (heap g)" by auto
        qed
        show "incSum (heap g) ((bridgeList g)[i := ?ex\<lparr>count' := 2\<rparr>]) p
            = incSum (heap g) (bridgeList g) p + (if atEndpoints (obj g s) (obj g e) p then 1 else 0)" for p
          unfolding incSum_def
          using sum_list_update_int[OF i, of "?w p" "?ex\<lparr>count' := 2\<rparr>"] inc[of p] c1 by simp
      qed
      with Some False show ?thesis by (simp add: addOrUpdateBridge_def)
    qed
  qed
qed


lemma handleBridgeClick_wf:
  assumes wf: "wellFormed g"
  shows "wellFormed (handleBridgeClick g b)"
proof -
  let ?ok = "\<lambda>b. start b < length (heap g) \<and> end' b < length (heap g) \<and>
                 (count' b = 1 \<or> count' b = 2) \<and> id' b < nextId g"
  let ?m = "map (\<lambda>c. if id' c = id' b then c\<lparr>count' := 1\<rparr> else c) (bridgeList g)"
  let ?f = "filter (\<lambda>c. id' c \<noteq> id' b) (bridgeList g)"
  from wf have brd: "list_all (\<lambda>a. a < length (heap g)) (board g)"
    and bs: "\<forall>b\<in>set (bridgeList g). ?ok b" and dist: "distinct (map id' (bridgeList g))"
    by (simp_all add: wellFormed_def list_all_iff)
  have "(id' \<circ> (\<lambda>c. if id' c = id' b then c\<lparr>count' := 1\<rparr> else c)) = id'"
    by (rule ext) simp
  then have "map id' ?m = map id' (bridgeList g)" by simp
  moreover have "\<forall>c\<in>set ?m. ?ok c" using bs by auto
  ultimately have "wellFormed (g\<lparr>bridgeList := ?m\<rparr>)"
    using brd dist by (simp add: wellFormed_def list_all_iff del: map_map set_map)
  then have m: "wellFormed (restoreOne (g\<lparr>bridgeList := ?m\<rparr>) b)"
    unfolding restoreOne_eq by (rule updatePointConnections_wf)
  from brd bs dist have "wellFormed (g\<lparr>bridgeList := ?f\<rparr>)"
    by (auto simp: wellFormed_def list_all_iff distinct_map_filter)
  then have "wellFormed (restoreOne (g\<lparr>bridgeList := ?f\<rparr>) b)"
    unfolding restoreOne_eq by (rule updatePointConnections_wf)
  with m show ?thesis by (simp add: handleBridgeClick_def)
qed

lemma handleBridgeClick_ledger:
  assumes wf: "wellFormed g" and ok: "ledgerOk g" and mem: "b \<in> set (bridgeList g)"
  shows "ledgerOk (handleBridgeClick g b)"
proof -
  let ?ok = "\<lambda>b. start b < length (heap g) \<and> end' b < length (heap g) \<and>
                 (count' b = 1 \<or> count' b = 2) \<and> id' b < nextId g"
  let ?w = "\<lambda>p b. if atEndpoints (heap g ! start b) (heap g ! end' b) p then count' b else 0"
  let ?m = "map (\<lambda>c. if id' c = id' b then c\<lparr>count' := 1\<rparr> else c) (bridgeList g)"
  let ?f = "filter (\<lambda>c. id' c \<noteq> id' b) (bridgeList g)"
  from wf have bs: "\<forall>b\<in>set (bridgeList g). ?ok b" and dist: "distinct (map id' (bridgeList g))"
    by (simp_all add: wellFormed_def list_all_iff)
  from bs mem have b: "?ok b" by blast
  show ?thesis
  proof (cases "count' b > 1")
    case True
    with b have c2: "count' b = 2" by auto
    have "ledgerOk (updatePointConnections (g\<lparr>bridgeList := ?m, nextId := nextId g\<rparr>)
                     (start b) (end' b) (- 1))"
    proof (rule update_after_bridges[OF wf _ ok])
      show "\<forall>c\<in>set ?m. start c < length (heap g) \<and> end' c < length (heap g)"
        using bs by auto
      show "incSum (heap g) ?m p = incSum (heap g) (bridgeList g) p
              + (if atEndpoints (obj g (start b)) (obj g (end' b)) p then - 1 else 0)" for p
        unfolding incSum_def
        using sum_list_map_key[OF dist mem, of "?w p" "\<lambda>c. c\<lparr>count' := 1\<rparr>"] c2
        by (simp add: obj_def)
    qed
    with True show ?thesis by (simp add: handleBridgeClick_def restoreOne_eq)
  next
    case False
    with b have c1: "count' b = 1" by auto
    have "ledgerOk (updatePointConnections (g\<lparr>bridgeList := ?f, nextId := nextId g\<rparr>)
                     (start b) (end' b) (- 1))"
    proof (rule update_after_bridges[OF wf _ ok])
      show "\<forall>c\<in>set ?f. start c < length (heap g) \<and> end' c < length (heap g)"
        using bs by auto
      show "incSum (heap g) ?f p = incSum (heap g) (bridgeList g) p
              + (if atEndpoints (obj g (start b)) (obj g (end' b)) p then - 1 else 0)" for p
        unfolding incSum_def
        using sum_list_filter_key[OF dist mem, of "?w p"] c1
        by (simp add: obj_def)
    qed
    with False show ?thesis by (simp add: handleBridgeClick_def restoreOne_eq)
  qed
qed

lemma reachable_invariant:
  assumes "reachable g0 g" and "wellFormed g0" and "ledgerOk g0"
  shows "wellFormed g \<and> ledgerOk g"
  using assms
proof (induction rule: reachable.induct)
  case initial
  then show ?case by simp
next
  case (primary g s e)
  then show ?case by (simp add: addOrUpdateBridge_wf addOrUpdateBridge_ledger)
next
  case (reduce g b)
  then show ?case by (simp add: handleBridgeClick_wf handleBridgeClick_ledger)
qed

subsection \<open>The validator without references\<close>

lemma liesBetween_endpoints: "\<not> liesBetween ps pe ps" "\<not> liesBetween ps pe pe"
  by (auto simp: liesBetween_def)

lemma isValidConnection_char:
  "isValidConnection g s e \<longleftrightarrow>
     (x (obj g s) = x (obj g e) \<or> y (obj g s) = y (obj g e)) \<and>
     0 < remainingConnections (obj g s) \<and> 0 < remainingConnections (obj g e) \<and>
     (\<forall>p\<in>set (boardPoints g). \<not> liesBetween (obj g s) (obj g e) p)"
proof -
  let ?f = "\<lambda>p.
              if p = s \<or> p = e then False
              else if x (obj g s) = x (obj g e) then
                (let minY = min (y (obj g s)) (y (obj g e)); maxY = max (y (obj g s)) (y (obj g e))
                 in x (obj g p) = x (obj g s) \<and> y (obj g p) > minY \<and> y (obj g p) < maxY)
              else
                (let minX = min (x (obj g s)) (x (obj g e)); maxX = max (x (obj g s)) (x (obj g e))
                 in y (obj g p) = y (obj g s) \<and> x (obj g p) > minX \<and> x (obj g p) < maxX)"
  have f: "?f p \<longleftrightarrow> liesBetween (obj g s) (obj g e) (obj g p)" for p
    using liesBetween_endpoints[of "obj g s" "obj g e"]
    by (cases "p = s \<or> p = e") (auto simp: liesBetween_def Let_def)
  have blocked: "list_ex ?f (board g) \<longleftrightarrow> (\<exists>p\<in>set (boardPoints g). liesBetween (obj g s) (obj g e) p)"
    unfolding list_ex_iff boardPoints_def using f by auto
  have "isValidConnection g s e \<longleftrightarrow>
     \<not> (x (obj g s) \<noteq> x (obj g e) \<and> y (obj g s) \<noteq> y (obj g e)) \<and>
     \<not> (remainingConnections (obj g s) \<le> 0 \<or> remainingConnections (obj g e) \<le> 0) \<and>
     \<not> list_ex ?f (board g)"
    unfolding isValidConnection_def by (simp only: Let_def split: if_split) blast
  then show ?thesis unfolding blocked by auto
qed

lemma isValidConnection_isLegalSpec:
  assumes ap: "apart (boardPoints g)" and s: "s \<in> set (board g)" and e: "e \<in> set (board g)"
    and ne: "s \<noteq> e"
  shows "isValidConnection g s e = isLegalSpec g s e"
proof -
  from s obtain i where i: "i < length (board g)" "board g ! i = s" by (auto simp: in_set_conv_nth)
  from e obtain j where j: "j < length (board g)" "board g ! j = e" by (auto simp: in_set_conv_nth)
  from i j ne have "i \<noteq> j" by auto
  with ap i j have diff: "x (obj g s) \<noteq> x (obj g e) \<or> y (obj g s) \<noteq> y (obj g e)"
    unfolding apart_def boardPoints_def by force
  have "list_ex (\<lambda>p. p \<noteq> s \<and> p \<noteq> e \<and> liesBetween (obj g s) (obj g e) (obj g p)) (board g)
        \<longleftrightarrow> (\<exists>p\<in>set (boardPoints g). liesBetween (obj g s) (obj g e) p)"
    using liesBetween_endpoints[of "obj g s" "obj g e"]
    unfolding list_ex_iff boardPoints_def by auto
  with diff ne show ?thesis
    unfolding isValidConnection_char isLegalSpec_def by auto
qed

subsection \<open>Repeated requests with the same two objects\<close>



lemma liesBetween_bump [simp]: "liesBetween ps pe (bump qs qe c p) = liesBetween ps pe p"
  by (simp add: liesBetween_def bump_def)



lemma obj_bridgeList_update [simp]: "obj (g\<lparr>bridgeList := bs\<rparr>) = obj g"
  by (rule ext) (simp add: obj_def)

lemma obj_nextId_update [simp]: "obj (g\<lparr>nextId := n\<rparr>) = obj g"
  by (rule ext) (simp add: obj_def)

lemma boardPoints_bridgeList_update [simp]: "boardPoints (g\<lparr>bridgeList := bs\<rparr>) = boardPoints g"
  by (simp add: boardPoints_def)

lemma boardPoints_nextId_update [simp]: "boardPoints (g\<lparr>nextId := n\<rparr>) = boardPoints g"
  by (simp add: boardPoints_def)




section \<open>The generator\<close>

subsection \<open>What the attempt loop returns\<close>

lemma attemptOnceE:
  assumes "attemptOnce m t = Some (res, t4)"
  obtains r t1 positions t2 potential1 t3 usedEdges parent potential2 where
    "randomBelow (maxIslands (MODES_CONFIG m) - minIslands (MODES_CONFIG m) + 1) t = Some (r, t1)"
    "samplePositions (r + minIslands (MODES_CONFIG m)) (gridSize (MODES_CONFIG m)) [] t1
       = Some (positions, t2)"
    "shuffleArray (potentialEdges (newIslands positions)) t2 = Some (potential1, t3)"
    "mstLoop potential1 (unionFindInit (newIslands positions)) [] = Some (usedEdges, parent)"
    "shuffleArray potential1 t3 = Some (potential2, t4)"
    "res = (let islands2 = addValues (extrasLoop potential2 (length (newIslands positions) div 2) usedEdges)
                             (newIslands positions)
            in if list_ex (\<lambda>i. value' i = 0) islands2 then None
               else Some (map (\<lambda>p. p\<lparr>remainingConnections := value' p\<rparr>) islands2))"
  using assms unfolding attemptOnce_def
  by (auto simp: Let_def split: Option.bind_splits if_splits)

lemma attemptLoop_result:
  "attemptLoop m a t = Some b \<Longrightarrow>
   b = fallbackBoard \<or> (\<exists>t0 t'. attemptOnce m t0 = Some (Some b, t'))"
proof (induction m a t rule: attemptLoop.induct)
  case (1 m attempt t)
  show ?case
  proof (cases "attempt < 100")
    case False
    with "1.prems" show ?thesis by simp
  next
    case True
    show ?thesis
    proof (cases "attemptOnce m t")
      case None
      with True "1.prems" show ?thesis by simp
    next
      case (Some rt)
      obtain res t' where rt: "rt = (res, t')" by (cases rt)
      show ?thesis
      proof (cases res)
        case None
        with True Some rt "1.prems" have "attemptLoop m (attempt + 1) t' = Some b" by simp
        with "1.IH"[OF True \<open>attemptOnce m t = Some rt\<close> rt[symmetric] None] show ?thesis
          by blast
      next
        case (Some puzzle)
        with True \<open>attemptOnce m t = Some rt\<close> rt "1.prems" have "puzzle = b" by simp
        with Some \<open>attemptOnce m t = Some rt\<close> rt show ?thesis by blast
      qed
    qed
  qed
qed

lemma attemptOnce_remaining:
  assumes "attemptOnce m t = Some (Some b, t')"
  shows "list_all (\<lambda>p. remainingConnections p = value' p) b"
  using assms
  by (elim attemptOnceE) (auto simp: Let_def list_all_iff split: if_splits)

lemma generateValidPuzzle_remaining:
  assumes "generateValidPuzzle m t = Some puzzle"
  shows "list_all (\<lambda>p. remainingConnections p = value' p) puzzle"
proof -
  from assms attemptLoop_result[of m 0 t puzzle]
  consider "puzzle = fallbackBoard" | t0 t' where "attemptOnce m t0 = Some (Some puzzle, t')"
    by (auto simp: generateValidPuzzle_def)
  then show ?thesis
  proof cases
    case 1
    then show ?thesis by (simp add: fallbackBoard_def)
  next
    case 2
    then show ?thesis by (rule attemptOnce_remaining)
  qed
qed

lemma rejectedRun_fallback:
  "a \<le> 100 \<Longrightarrow> rejectedRun m (100 - a) t \<Longrightarrow> attemptLoop m a t = Some fallbackBoard"
proof (induction m a t rule: attemptLoop.induct)
  case (1 m attempt t)
  show ?case
  proof (cases "attempt < 100")
    case False
    then show ?thesis by simp
  next
    case True
    then obtain n where n: "100 - attempt = Suc n" "100 - (attempt + 1) = n"
      by (cases "100 - attempt") auto
    from "1.prems"(2) n(1) obtain t' where
      once: "attemptOnce m t = Some (None, t')" and rest: "rejectedRun m n t'"
      by (auto split: option.splits prod.splits)
    from True have le: "attempt + 1 \<le> 100" by simp
    from "1.IH"[OF True once refl refl] le rest n(2)
    have "attemptLoop m (attempt + 1) t' = Some fallbackBoard" by simp
    with True once show ?thesis by simp
  qed
qed

lemma loadPuzzle_wellFormed: "wellFormed (loadPuzzle puzzle)"
  by (simp add: wellFormed_def loadPuzzle_def list_all_iff)

lemma loadPuzzle_ledgerOk:
  "list_all (\<lambda>p. remainingConnections p = value' p) puzzle \<Longrightarrow> ledgerOk (loadPuzzle puzzle)"
  by (simp add: ledgerOk_def boardPoints_def incidentCount_def loadPuzzle_def list_all_iff obj_def)

section \<open>The spanning tree and the union-find structure\<close>

subsection \<open>Union-find: roots and path compression\<close>

lemma repOf_bounds: "repOf p a r \<Longrightarrow> a < length p \<and> r < length p \<and> p ! r = r"
  by (induction rule: repOf.induct) auto

lemma repOf_det: "repOf p a r \<Longrightarrow> repOf p a r' \<Longrightarrow> r = r'"
proof (induction arbitrary: r' rule: repOf.induct)
  case (root a)
  from root.prems root.hyps show ?case by (cases rule: repOf.cases) auto
next
  case (step a r)
  from step.prems step.hyps(1,2) have "repOf p (p ! a) r'"
    by (cases rule: repOf.cases) auto
  then show ?case by (rule step.IH)
qed

lemma repOf_root_self: "repOf p r r' \<Longrightarrow> p ! r = r \<Longrightarrow> r' = r"
  by (cases rule: repOf.cases) auto

text \<open>Pointing a key at its root changes no root of any key.\<close>

lemma repOf_compress:
  assumes a: "repOf p a r"
  shows "repOf p b s \<Longrightarrow> repOf (p[a := r]) b s"
proof (induction rule: repOf.induct)
  case (root b)
  show ?case
  proof (cases "b = a")
    case True
    with a root have "r = a" using repOf_root_self by blast
    with True root show ?thesis by (auto intro: repOf.root)
  next
    case False
    with root show ?thesis by (auto intro: repOf.root)
  qed
next
  case (step b s)
  show ?case
  proof (cases "b = a")
    case True
    have bs: "repOf p b s" using step.hyps by (auto intro: repOf.step)
    with a True have rs: "r = s" using repOf_det by blast
    from repOf_bounds[OF a] have r: "r < length p" "p ! r = r" by auto
    with True step.hyps(2) have ra: "r \<noteq> a" by auto
    with r have "repOf (p[a := r]) r r" by (auto intro: repOf.root)
    with True step.hyps(1) ra rs show ?thesis
      by (auto intro: repOf.step)
  next
    case False
    with step show ?thesis by (auto intro: repOf.step)
  qed
qed

text \<open>Linking the root \<open>rb\<close> to the root \<open>ra\<close> moves the keys of \<open>rb\<close> to \<open>ra\<close>.\<close>

lemma repOf_link:
  assumes ra: "ra < length p" "p ! ra = ra" and rb: "rb < length p" "p ! rb = rb"
  shows "repOf p c rc \<Longrightarrow> repOf (p[rb := ra]) c (if rc = rb then ra else rc)"
proof (induction rule: repOf.induct)
  case (root c)
  show ?case
  proof (cases "c = rb")
    case True
    show ?thesis
    proof (cases "ra = rb")
      case True
      with \<open>c = rb\<close> rb show ?thesis by (auto intro: repOf.root)
    next
      case False
      with ra have "repOf (p[rb := ra]) ra ra" by (auto intro: repOf.root)
      with False \<open>c = rb\<close> rb show ?thesis by (auto intro: repOf.step)
    qed
  next
    case False
    with root show ?thesis by (auto intro: repOf.root)
  qed
next
  case (step c rc)
  from step.hyps(2) rb have "c \<noteq> rb" by auto
  with step show ?case by (auto intro: repOf.step)
qed

lemma find'_correct:
  "repOf p a r \<Longrightarrow>
   \<exists>p'. find' p a = Some (r, p') \<and> length p' = length p \<and>
        (\<forall>b s. repOf p b s \<longrightarrow> repOf p' b s) \<and> roots p' = roots p"
proof (induction rule: repOf.induct)
  case (root a)
  then have "find' p a = Some (a, p)" by (subst find'.simps) simp
  then show ?case by blast
next
  case (step a r)
  then obtain p1 where p1: "find' p (p ! a) = Some (r, p1)" "length p1 = length p"
    "\<forall>b s. repOf p b s \<longrightarrow> repOf p1 b s" "roots p1 = roots p" by blast
  have ar: "repOf p a r" using step.hyps by (auto intro: repOf.step)
  with p1(3) have ar1: "repOf p1 a r" by blast
  from repOf_bounds[OF ar] step.hyps(2) have ra: "r \<noteq> a" by auto
  have f: "find' p a = Some (r, p1[a := r])"
    using step.hyps(1,2) p1(1,2) by (subst find'.simps) simp
  have keep: "\<forall>b s. repOf p b s \<longrightarrow> repOf (p1[a := r]) b s"
    using p1(3) repOf_compress[OF ar1] by blast
  have "a \<notin> roots p1" using p1(4) step.hyps(2) by (simp add: roots_def)
  with ra step.hyps(1) p1(2) have "roots (p1[a := r]) = roots p1"
    by (auto simp: roots_def nth_list_update)
  with f keep p1 show ?case by simp
qed

lemma ufInv_preserved:
  assumes "ufInv p" "length p' = length p" "\<forall>b s. repOf p b s \<longrightarrow> repOf p' b s"
  shows "ufInv p'" "repOf p' b s \<Longrightarrow> repOf p b s"
proof -
  show "ufInv p'" unfolding ufInv_def using assms by (metis ufInv_def)
  assume s: "repOf p' b s"
  with assms(2) have "b < length p" using repOf_bounds by fastforce
  with assms(1) obtain s0 where s0: "repOf p b s0" by (auto simp: ufInv_def)
  with assms(3) have "repOf p' b s0" by blast
  with s have "s = s0" by (rule repOf_det)
  with s0 show "repOf p b s" by simp
qed

lemma sameSet_correct:
  assumes "repOf p a ra" "repOf p b rb"
  shows "\<exists>p'. sameSet p a b = Some (ra = rb, p') \<and> length p' = length p \<and>
          (\<forall>c s. repOf p c s \<longrightarrow> repOf p' c s) \<and> roots p' = roots p"
proof -
  from find'_correct[OF assms(1)] obtain p1 where p1: "find' p a = Some (ra, p1)"
    "length p1 = length p" "\<forall>b s. repOf p b s \<longrightarrow> repOf p1 b s" "roots p1 = roots p" by blast
  from p1(3) assms(2) have "repOf p1 b rb" by blast
  from find'_correct[OF this] obtain p2 where p2: "find' p1 b = Some (rb, p2)"
    "length p2 = length p1" "\<forall>b s. repOf p1 b s \<longrightarrow> repOf p2 b s" "roots p2 = roots p1" by blast
  have "sameSet p a b = Some (ra = rb, p2)" by (simp add: sameSet_def p1(1) p2(1))
  with p1 p2 show ?thesis by auto
qed

lemma union'_correct:
  assumes "repOf p a ra" "repOf p b rb"
  shows "\<exists>p'. union' p a b = Some p' \<and> length p' = length p \<and>
          (\<forall>c s. repOf p c s \<longrightarrow> repOf p' c (if s = rb then ra else s)) \<and>
          roots p' = (if ra = rb then roots p else roots p - {rb})"
proof -
  from find'_correct[OF assms(2)] obtain p1 where p1: "find' p b = Some (rb, p1)"
    "length p1 = length p" "\<forall>b s. repOf p b s \<longrightarrow> repOf p1 b s" "roots p1 = roots p" by blast
  from p1(3) assms(1) have "repOf p1 a ra" by blast
  from find'_correct[OF this] obtain p2 where p2: "find' p1 a = Some (ra, p2)"
    "length p2 = length p1" "\<forall>b s. repOf p1 b s \<longrightarrow> repOf p2 b s" "roots p2 = roots p1" by blast
  have u: "union' p a b = Some (p2[rb := ra])" by (simp add: union'_def p1(1) p2(1))
  from assms p1(3) p2(3) have "repOf p2 a ra" "repOf p2 b rb" by blast+
  with repOf_bounds have ra: "ra < length p2" "p2 ! ra = ra" and rb: "rb < length p2" "p2 ! rb = rb"
    by blast+
  have keep: "\<forall>c s. repOf p c s \<longrightarrow> repOf (p2[rb := ra]) c (if s = rb then ra else s)"
    using p1(3) p2(3) repOf_link[OF ra rb] by blast
  have "roots (p2[rb := ra]) = (if ra = rb then roots p2 else roots p2 - {rb})"
    using ra rb by (auto simp: roots_def nth_list_update)
  with u keep p1 p2 show ?thesis by simp
qed

subsection \<open>Components and links\<close>

lemma sameComponent_refl: "ufInv p \<Longrightarrow> a < length p \<Longrightarrow> sameComponent p a a"
  by (auto simp: ufInv_def sameComponent_def)

lemma sameComponent_sym: "sameComponent p a b \<Longrightarrow> sameComponent p b a"
  by (auto simp: sameComponent_def)

lemma sameComponent_trans: "sameComponent p a b \<Longrightarrow> sameComponent p b c \<Longrightarrow> sameComponent p a c"
  unfolding sameComponent_def using repOf_det by blast

lemma sameComponent_bounds: "sameComponent p a b \<Longrightarrow> a < length p \<and> b < length p"
  unfolding sameComponent_def using repOf_bounds by blast

lemma linked_refl: "linked es a a"
  by (simp add: linked_def)

lemma linked_sym: "linked es a b \<Longrightarrow> linked es b a"
proof -
  have "sym ((edgeRel es \<union> (edgeRel es)\<inverse>)\<^sup>*)"
    by (intro sym_rtrancl) (auto simp: sym_def)
  then show "linked es a b \<Longrightarrow> linked es b a" by (auto simp: linked_def sym_def)
qed

lemma linked_trans: "linked es a b \<Longrightarrow> linked es b c \<Longrightarrow> linked es a c"
  by (auto simp: linked_def)

lemma linked_mono: "linked es a b \<Longrightarrow> linked (es @ fs) a b"
proof -
  have "edgeRel es \<union> (edgeRel es)\<inverse> \<subseteq> edgeRel (es @ fs) \<union> (edgeRel (es @ fs))\<inverse>"
    by (auto simp: edgeRel_def)
  from rtrancl_mono[OF this] show "linked es a b \<Longrightarrow> linked (es @ fs) a b"
    by (auto simp: linked_def)
qed

lemma linked_edge: "e \<in> set es \<Longrightarrow> linked es (start e) (end' e)"
  by (auto simp: linked_def edgeRel_def)

text \<open>
  Any relation that is an equivalence on the points below \<open>k\<close> and holds along every
  edge holds between linked points.
\<close>

lemma linked_induct:
  assumes l: "linked es c d" and c: "c < k"
    and edges: "\<And>e. e \<in> set es \<Longrightarrow> start e < k \<and> end' e < k \<and> S (start e) (end' e)"
    and refl: "\<And>a. a < k \<Longrightarrow> S a a"
    and sym: "\<And>a b. S a b \<Longrightarrow> S b a"
    and trans: "\<And>a b c. S a b \<Longrightarrow> S b c \<Longrightarrow> S a c"
  shows "d < k \<and> S c d"
  using l unfolding linked_def
proof (induction rule: rtrancl_induct)
  case base
  with c refl show ?case by simp
next
  case (step u v)
  from step.hyps(2) obtain e where e: "e \<in> set es"
    and uv: "(u = start e \<and> v = end' e) \<or> (v = start e \<and> u = end' e)"
    by (auto simp: edgeRel_def)
  from edges[OF e] uv have "v < k \<and> S u v" using sym by blast
  with step.IH trans show ?case by blast
qed

lemma linked_absorb:
  assumes "linked es (start e) (end' e)"
  shows "linked (es @ [e]) c d \<longleftrightarrow> linked es c d"
proof
  assume "linked es c d" then show "linked (es @ [e]) c d" by (rule linked_mono)
next
  assume l: "linked (es @ [e]) c d"
  have sub: "edgeRel (es @ [e]) \<union> (edgeRel (es @ [e]))\<inverse> \<subseteq> (edgeRel es \<union> (edgeRel es)\<inverse>)\<^sup>*"
  proof -
    have "(start e, end' e) \<in> (edgeRel es \<union> (edgeRel es)\<inverse>)\<^sup>*"
      using assms by (simp add: linked_def)
    moreover have "(end' e, start e) \<in> (edgeRel es \<union> (edgeRel es)\<inverse>)\<^sup>*"
      using linked_sym[OF assms] by (simp add: linked_def)
    ultimately show ?thesis by (auto simp: edgeRel_def)
  qed
  from rtrancl_mono[OF sub] l show "linked es c d"
    by (auto simp: linked_def)
qed

lemma sameComponent_preserved:
  assumes "ufInv p" "length p' = length p" "\<forall>b s. repOf p b s \<longrightarrow> repOf p' b s"
  shows "sameComponent p' c d \<longleftrightarrow> sameComponent p c d"
  unfolding sameComponent_def using ufInv_preserved(2)[OF assms] assms(3) by blast

lemma finite_roots: "finite (roots p)"
  by (simp add: roots_def)

subsection \<open>The spanning tree loop\<close>

lemma mstLoop_spec:
  assumes "length p = k" "ufInv p"
    and "\<forall>a<k. \<forall>b<k. sameComponent p a b \<longleftrightarrow> linked seen a b"
    and "card (roots p) + length used = k"
    and "\<forall>e\<in>set seen. start e < k \<and> end' e < k"
    and "\<forall>e\<in>set es. start e < k \<and> end' e < k"
  shows "\<exists>p'. mstLoop es p used = Some (used @ acceptedSpec seen es, p') \<and>
           length p' = k \<and> ufInv p' \<and>
           (\<forall>a<k. \<forall>b<k. sameComponent p' a b \<longleftrightarrow> linked (seen @ es) a b) \<and>
           card (roots p') + length (used @ acceptedSpec seen es) = k"
  using assms
proof (induction es arbitrary: p used seen)
  case Nil
  then show ?case by simp
next
  case (Cons e es)
  let ?a = "start e" and ?b = "end' e"
  from Cons.prems(6) have ab: "?a < k" "?b < k" and rest: "\<forall>e\<in>set es. start e < k \<and> end' e < k"
    by auto
  from Cons.prems(1,2) ab obtain ra rb where ra: "repOf p ?a ra" and rb: "repOf p ?b rb"
    unfolding ufInv_def by metis
  from sameSet_correct[OF ra rb] obtain p1 where p1: "sameSet p ?a ?b = Some (ra = rb, p1)"
    "length p1 = length p" "\<forall>c s. repOf p c s \<longrightarrow> repOf p1 c s" "roots p1 = roots p" by blast
  have inv1: "ufInv p1" by (rule ufInv_preserved(1)[OF Cons.prems(2) p1(2,3)])
  have same1: "sameComponent p1 c d \<longleftrightarrow> sameComponent p c d" for c d
    by (rule sameComponent_preserved[OF Cons.prems(2) p1(2,3)])
  have seen': "\<forall>e\<in>set (seen @ [e]). start e < k \<and> end' e < k"
    using Cons.prems(5) ab by auto
  show ?case
  proof (cases "ra = rb")
    case True
    with ra rb have "sameComponent p ?a ?b" by (auto simp: sameComponent_def)
    with Cons.prems(3) ab have l: "linked seen ?a ?b" by blast
    have step: "mstLoop (e # es) p used = mstLoop es p1 used"
      using p1(1) True by simp
    have "\<forall>a<k. \<forall>b<k. sameComponent p1 a b \<longleftrightarrow> linked (seen @ [e]) a b"
      using Cons.prems(3) same1 linked_absorb[OF l] by simp
    from Cons.IH[OF _ inv1 this _ seen' rest, of used] p1(2,4) Cons.prems(1,4)
    obtain p' where "mstLoop es p1 used = Some (used @ acceptedSpec (seen @ [e]) es, p')"
      "length p' = k" "ufInv p'"
      "\<forall>a<k. \<forall>b<k. sameComponent p' a b \<longleftrightarrow> linked ((seen @ [e]) @ es) a b"
      "card (roots p') + length (used @ acceptedSpec (seen @ [e]) es) = k"
      by auto
    with step l show ?thesis by simp
  next
    case False
    have nl: "\<not> linked seen ?a ?b"
    proof
      assume "linked seen ?a ?b"
      with Cons.prems(3) ab have "sameComponent p ?a ?b" by blast
      then obtain s where "repOf p ?a s" "repOf p ?b s" by (auto simp: sameComponent_def)
      with ra rb have "ra = rb" using repOf_det by blast
      with False show False by simp
    qed
    from p1(3) ra rb have ra1: "repOf p1 ?a ra" and rb1: "repOf p1 ?b rb" by blast+
    from union'_correct[OF ra1 rb1] False obtain p2 where p2: "union' p1 ?a ?b = Some p2"
      "length p2 = length p1"
      "\<forall>c s. repOf p1 c s \<longrightarrow> repOf p2 c (if s = rb then ra else s)"
      "roots p2 = roots p1 - {rb}" by auto
    let ?e1 = "\<lparr>start = ?a, end' = ?b, count' = 1\<rparr>"
    have step: "mstLoop (e # es) p used = mstLoop es p2 (used @ [?e1])"
      using p1(1) p2(1) False by simp
    have len2: "length p2 = k" using p2(2) p1(2) Cons.prems(1) by simp
    have inv2: "ufInv p2"
      unfolding ufInv_def
    proof (intro allI impI)
      fix c assume "c < length p2"
      with p2(2) inv1 obtain s where "repOf p1 c s" unfolding ufInv_def by metis
      with p2(3) show "\<exists>r. repOf p2 c r" by blast
    qed
    have same2: "sameComponent p2 c d \<longleftrightarrow> linked (seen @ [e]) c d" if c: "c < k" and d: "d < k" for c d
    proof
      assume "sameComponent p2 c d"
      then obtain s where s: "repOf p2 c s" "repOf p2 d s" by (auto simp: sameComponent_def)
      from c d inv1 p1(2) Cons.prems(1) obtain rc rd where r: "repOf p1 c rc" "repOf p1 d rd"
        unfolding ufInv_def by metis
      with p2(3) have "repOf p2 c (if rc = rb then ra else rc)" "repOf p2 d (if rd = rb then ra else rd)"
        by blast+
      with s have eq: "(if rc = rb then ra else rc) = (if rd = rb then ra else rd)"
        using repOf_det by metis
      have l1: "linked seen u v" if "sameComponent p1 u v" for u v
        using that same1 Cons.prems(3) sameComponent_bounds[OF that] p1(2) Cons.prems(1) by auto
      have ab': "linked (seen @ [e]) ?a ?b" by (rule linked_edge) simp
      consider "rc = rd" | "rc = rb" "rd = ra" "rc \<noteq> rd" | "rd = rb" "rc = ra" "rc \<noteq> rd"
        using eq by (auto split: if_splits)
      then show "linked (seen @ [e]) c d"
      proof cases
        case 1
        with r have "sameComponent p1 c d" by (auto simp: sameComponent_def)
        then show ?thesis by (intro linked_mono l1)
      next
        case 2
        with r ra1 rb1 have "sameComponent p1 c ?b" "sameComponent p1 ?a d"
          by (auto simp: sameComponent_def)
        then have "linked (seen @ [e]) c ?b" "linked (seen @ [e]) ?a d"
          by (auto intro: linked_mono l1)
        with ab' show ?thesis using linked_sym linked_trans by blast
      next
        case 3
        with r ra1 rb1 have "sameComponent p1 c ?a" "sameComponent p1 ?b d"
          by (auto simp: sameComponent_def)
        then have "linked (seen @ [e]) c ?a" "linked (seen @ [e]) ?b d"
          by (auto intro: linked_mono l1)
        with ab' show ?thesis using linked_sym linked_trans by blast
      qed
    next
      assume l: "linked (seen @ [e]) c d"
      have up: "sameComponent p2 u v" if "sameComponent p1 u v" for u v
        using that p2(3) unfolding sameComponent_def by blast
      have "d < k \<and> sameComponent p2 c d"
      proof (rule linked_induct[OF l c])
        fix f assume f: "f \<in> set (seen @ [e])"
        show "start f < k \<and> end' f < k \<and> sameComponent p2 (start f) (end' f)"
        proof (cases "f = e")
          case True
          from p2(3) ra1 rb1 have "repOf p2 ?a ra" "repOf p2 ?b ra" by force+
          with True ab show ?thesis by (auto simp: sameComponent_def)
        next
          case False
          with f have fs: "f \<in> set seen" by simp
          with Cons.prems(5) have b: "start f < k" "end' f < k" by auto
          from fs have "linked seen (start f) (end' f)" by (rule linked_edge)
          with Cons.prems(3) b same1 have "sameComponent p1 (start f) (end' f)" by simp
          with b up show ?thesis by simp
        qed
      next
        fix u assume "u < k"
        with inv2 len2 show "sameComponent p2 u u" by (simp add: sameComponent_refl)
      next
        fix u v assume "sameComponent p2 u v" then show "sameComponent p2 v u"
          by (rule sameComponent_sym)
      next
        fix u v w assume "sameComponent p2 u v" "sameComponent p2 v w"
        then show "sameComponent p2 u w" by (rule sameComponent_trans)
      qed
      then show "sameComponent p2 c d" by simp
    qed
    from repOf_bounds[OF rb] have "rb \<in> roots p" by (simp add: roots_def)
    with p2(4) p1(4) have "card (roots p2) = card (roots p) - 1" "card (roots p) \<ge> 1"
      using finite_roots[of p] by (auto simp: card_gt_0_iff Suc_le_eq)
    with Cons.prems(4) have cnt: "card (roots p2) + length (used @ [?e1]) = k" by simp
    from Cons.IH[OF len2 inv2 _ cnt seen' rest] same2
    obtain p' where "mstLoop es p2 (used @ [?e1])
        = Some ((used @ [?e1]) @ acceptedSpec (seen @ [e]) es, p')"
      "length p' = k" "ufInv p'"
      "\<forall>a<k. \<forall>b<k. sameComponent p' a b \<longleftrightarrow> linked ((seen @ [e]) @ es) a b"
      "card (roots p') + length ((used @ [?e1]) @ acceptedSpec (seen @ [e]) es) = k"
      by blast
    with step nl show ?thesis by simp
  qed
qed

lemma one_root_iff_one_component:
  assumes inv: "ufInv p" and ne: "0 < length p"
  shows "(\<forall>a<length p. \<forall>b<length p. sameComponent p a b) \<longleftrightarrow> card (roots p) = 1"
proof
  assume all: "\<forall>a<length p. \<forall>b<length p. sameComponent p a b"
  from inv ne obtain r0 where r0: "repOf p 0 r0" unfolding ufInv_def by metis
  have "roots p = {r0}"
  proof (intro equalityI subsetI)
    fix r assume "r \<in> roots p"
    then have r: "r < length p" "p ! r = r" by (simp_all add: roots_def)
    with all ne obtain s where s: "repOf p r s" "repOf p 0 s"
      unfolding sameComponent_def by metis
    from s(1) r(2) have "s = r" by (rule repOf_root_self)
    moreover from s(2) r0 have "s = r0" by (rule repOf_det)
    ultimately show "r \<in> {r0}" by simp
  next
    fix r assume "r \<in> {r0}"
    with repOf_bounds[OF r0] show "r \<in> roots p" by (simp add: roots_def)
  qed
  then show "card (roots p) = 1" by simp
next
  assume "card (roots p) = 1"
  then obtain r where r: "roots p = {r}" by (auto simp: card_1_singleton_iff)
  show "\<forall>a<length p. \<forall>b<length p. sameComponent p a b"
  proof (intro allI impI)
    fix a b assume "a < length p" "b < length p"
    with inv obtain ra rb where ab: "repOf p a ra" "repOf p b rb" unfolding ufInv_def by metis
    with repOf_bounds have "ra \<in> roots p" "rb \<in> roots p" by (auto simp: roots_def)
    with r ab show "sameComponent p a b" by (auto simp: sameComponent_def)
  qed
qed

lemma unionFindInit_inv:
  "length (unionFindInit islands) = length islands"
  "ufInv (unionFindInit islands)"
  "a < length islands \<Longrightarrow> repOf (unionFindInit islands) a a"
  "roots (unionFindInit islands) = {..<length islands}"
  by (auto simp: unionFindInit_def ufInv_def roots_def intro!: exI repOf.root)

lemma spanning_tree_spec:
  assumes edges: "\<forall>e\<in>set es. start e < length islands \<and> end' e < length islands"
    and ne: "islands \<noteq> []"
  shows "\<exists>p. mstLoop es (unionFindInit islands) [] = Some (acceptedSpec [] es, p) \<and>
           (int (length (acceptedSpec [] es)) = int (length islands) - 1
              \<longleftrightarrow> graphConnected (length islands) es)"
proof -
  let ?k = "length islands" and ?p0 = "unionFindInit islands"
  have init: "\<forall>a<?k. \<forall>b<?k. sameComponent ?p0 a b \<longleftrightarrow> linked [] a b"
  proof (intro allI impI)
    fix a b assume a: "a < ?k" and b: "b < ?k"
    have "sameComponent ?p0 a b \<longleftrightarrow> a = b"
      using unionFindInit_inv(3)[OF a] unionFindInit_inv(3)[OF b] repOf_det
      unfolding sameComponent_def by metis
    then show "sameComponent ?p0 a b \<longleftrightarrow> linked [] a b"
      by (simp add: linked_def edgeRel_def)
  qed
  have "card (roots ?p0) + length ([] :: usedEdge list) = ?k"
    by (simp add: unionFindInit_inv(4))
  from mstLoop_spec[OF unionFindInit_inv(1,2) init this _ edges]
  obtain p where p: "mstLoop es ?p0 [] = Some (acceptedSpec [] es, p)" "length p = ?k" "ufInv p"
    "\<forall>a<?k. \<forall>b<?k. sameComponent p a b \<longleftrightarrow> linked es a b"
    "card (roots p) + length (acceptedSpec [] es) = ?k"
    by auto
  from ne p(2) have pos: "0 < length p" by simp
  have "graphConnected ?k es \<longleftrightarrow> (\<forall>a<length p. \<forall>b<length p. sameComponent p a b)"
    using p(2,4) by (simp add: graphConnected_def)
  also have "\<dots> \<longleftrightarrow> card (roots p) = 1"
    by (rule one_root_iff_one_component[OF p(3) pos])
  also have "\<dots> \<longleftrightarrow> int (length (acceptedSpec [] es)) = int ?k - 1"
    using p(5) by auto
  finally show ?thesis using p(1) by blast
qed

lemma mstLoop_row_of_three:
  "mstLoop (potentialEdges (newIslands [(0, 0), (1, 0), (2, 0)]))
     (unionFindInit (newIslands [(0, 0), (1, 0), (2, 0)])) []
   = Some ([\<lparr>start = 0, end' = 1, count' = 1\<rparr>, \<lparr>start = 1, end' = 2, count' = 1\<rparr>], [0, 0, 0])"
  by code_simp

lemma potentialEdges_row_of_three:
  "potentialEdges (newIslands [(0, 0), (1, 0), (2, 0)])
     = [\<lparr>start = 0, end' = 1\<rparr>, \<lparr>start = 1, end' = 2\<rparr>]"
  by code_simp

section \<open>The values of generated boards\<close>

subsection \<open>Sampled positions, candidate edges, shuffling\<close>

lemma samplePositions_distinct:
  "samplePositions k n ps t = Some (ps', t') \<Longrightarrow> distinct ps \<Longrightarrow> distinct ps'"
proof (induction k n ps t rule: samplePositions.induct)
  case (1 islandCount gsize positions t)
  show ?case
  proof (cases "length positions < islandCount")
    case False
    with "1.prems" show ?thesis by simp
  next
    case True
    from "1.prems"(1) True obtain px t1 where r1: "randomBelow gsize t = Some (px, t1)"
      by (auto split: option.splits)
    from "1.prems"(1) True r1 obtain py t2 where r2: "randomBelow gsize t1 = Some (py, t2)"
      by (auto split: option.splits)
    have ex: "list_ex (\<lambda>p. fst p = int px \<and> snd p = int py) positions
              \<longleftrightarrow> (int px, int py) \<in> set positions"
      by (force simp: list_ex_iff)
    show ?thesis
    proof (cases "(int px, int py) \<in> set positions")
      case False
      with "1.prems" True r1 r2 ex
      have "samplePositions islandCount gsize (positions @ [(int px, int py)]) t2 = Some (ps', t')"
        by simp
      moreover have "distinct (positions @ [(int px, int py)])"
        using False "1.prems"(2) by simp
      ultimately show ?thesis
        using "1.IH"(1)[OF True r1 refl r2 refl] False ex by blast
    next
      case in_set: True
      with "1.prems" True r1 r2 ex
      have "samplePositions islandCount gsize positions t2 = Some (ps', t')" by simp
      with "1.IH"(2)[OF True r1 refl r2 refl] in_set ex "1.prems"(2) show ?thesis by blast
    qed
  qed
qed

lemma newIslands_nth:
  "i < length positions \<Longrightarrow>
   x (newIslands positions ! i) = fst (positions ! i) \<and>
   y (newIslands positions ! i) = snd (positions ! i) \<and>
   value' (newIslands positions ! i) = 0"
  by (simp add: newIslands_def)

lemma newIslands_length [simp]: "length (newIslands positions) = length positions"
  by (simp add: newIslands_def)

lemma newIslands_apart: "distinct positions \<Longrightarrow> apart (newIslands positions)"
  unfolding apart_def
proof (intro allI impI)
  fix i j assume d: "distinct positions"
    and i: "i < length (newIslands positions)" and j: "j < length (newIslands positions)"
    and ij: "i \<noteq> j"
  then have "positions ! i \<noteq> positions ! j" by (simp add: nth_eq_iff_index_eq)
  with i j show "x (newIslands positions ! i) \<noteq> x (newIslands positions ! j) \<or>
                 y (newIslands positions ! i) \<noteq> y (newIslands positions ! j)"
    by (simp add: newIslands_nth prod_eq_iff)
qed

lemma shuffleFrom_mset:
  "shuffleFrom n arr t = Some (arr', t') \<Longrightarrow> n < length arr \<or> n = 0 \<Longrightarrow> mset arr' = mset arr"
proof (induction n arr t rule: shuffleFrom.induct)
  case (1 arr t)
  then show ?case by simp
next
  case (2 i arr t)
  from "2.prems"(1) obtain j t1 where r: "randomBelow (Suc i + 1) t = Some (j, t1)"
    by (auto split: option.splits)
  then have j: "j < Suc i + 1" by (auto simp: randomBelow_def split: list.splits)
  from "2.prems"(2) have i: "Suc i < length arr" by simp
  let ?arr1 = "arr[Suc i := arr ! j, j := arr ! Suc i]"
  from "2.prems"(1) r have "shuffleFrom i ?arr1 t1 = Some (arr', t')" by simp
  with "2.IH"[OF r refl] i have "mset arr' = mset ?arr1" by simp
  also have "\<dots> = mset arr" using i j by (intro mset_swap) simp_all
  finally show ?case .
qed

lemma shuffleArray_mset: "shuffleArray arr t = Some (arr', t') \<Longrightarrow> mset arr' = mset arr"
  unfolding shuffleArray_def by (rule shuffleFrom_mset) (auto simp: Suc_le_eq)

text \<open>
  The candidate list: one edge for every pair \<open>i < j\<close> of islands in one row or column
  with no island in between, each pair once.
\<close>

lemma potentialEdges_pairs:
  "map (\<lambda>e. (start e, end' e)) (potentialEdges pts)
     = concat (map (\<lambda>i. map (Pair i) (filter (\<lambda>j.
           (x (pts ! i) = x (pts ! j) \<or> y (pts ! i) = y (pts ! j)) \<and> \<not> hasIslandInBetween i j pts)
         [i + 1..<length pts])) [0..<length pts])"
proof -
  have inner: "map (\<lambda>e. (start e, end' e)) (concat (map (\<lambda>j.
         if x (pts ! i) = x (pts ! j) \<or> y (pts ! i) = y (pts ! j) then
           (if \<not> hasIslandInBetween i j pts then [\<lparr>start = i, end' = j\<rparr>] else [])
         else []) js))
       = map (Pair i) (filter (\<lambda>j.
           (x (pts ! i) = x (pts ! j) \<or> y (pts ! i) = y (pts ! j)) \<and> \<not> hasIslandInBetween i j pts) js)"
    for i js
    by (induction js) auto
  show ?thesis
    unfolding potentialEdges_def
    by (subst map_concat) (simp only: map_map comp_def inner)
qed

lemma distinct_pairs_concat:
  "distinct ks \<Longrightarrow> (\<And>i. distinct (f i)) \<Longrightarrow> distinct (concat (map (\<lambda>i. map (Pair i) (f i)) ks))"
  by (induction ks) (auto simp: distinct_map inj_on_def)

lemma potentialEdges_distinct: "distinct (map (\<lambda>e. (start e, end' e)) (potentialEdges pts))"
  unfolding potentialEdges_pairs by (rule distinct_pairs_concat) simp_all

lemma set_pairs_concat:
  "(i, j) \<in> set (concat (map (\<lambda>i. map (Pair i) (f i)) ks)) \<longleftrightarrow> i \<in> set ks \<and> j \<in> set (f i)"
  by (induction ks) auto

lemma potentialEdges_set:
  "(i, j) \<in> set (map (\<lambda>e. (start e, end' e)) (potentialEdges pts)) \<longleftrightarrow>
     i < j \<and> j < length pts \<and> (x (pts ! i) = x (pts ! j) \<or> y (pts ! i) = y (pts ! j)) \<and>
     \<not> hasIslandInBetween i j pts"
  unfolding potentialEdges_pairs set_pairs_concat by auto

subsection \<open>The chosen edges\<close>

lemma mstLoop_used:
  "mstLoop es p used = Some (used', p') \<Longrightarrow>
   distinct (map (\<lambda>u. (start u, end' u)) used @ map (\<lambda>e. (start e, end' e)) es) \<Longrightarrow>
   \<forall>u\<in>set used. count' u = 1 \<or> count' u = 2 \<Longrightarrow>
   distinct (map (\<lambda>u. (start u, end' u)) used') \<and>
   set (map (\<lambda>u. (start u, end' u)) used')
     \<subseteq> set (map (\<lambda>u. (start u, end' u)) used) \<union> set (map (\<lambda>e. (start e, end' e)) es) \<and>
   (\<forall>u\<in>set used'. count' u = 1 \<or> count' u = 2)"
proof (induction es arbitrary: p used)
  case Nil
  then show ?case by simp
next
  case (Cons e es)
  from Cons.prems(1) obtain same p1 where s: "sameSet p (start e) (end' e) = Some (same, p1)"
    by (auto split: option.splits)
  show ?case
  proof (cases same)
    case True
    with Cons.prems(1) s have run: "mstLoop es p1 used = Some (used', p')" by simp
    from Cons.prems(2) have "distinct (map (\<lambda>u. (start u, end' u)) used @ map (\<lambda>e. (start e, end' e)) es)"
      by auto
    from Cons.IH[OF run this Cons.prems(3)] show ?thesis by auto
  next
    case False
    let ?e1 = "\<lparr>start = start e, end' = end' e, count' = 1\<rparr>"
    from Cons.prems(1) s False obtain p2 where
      run: "mstLoop es p2 (used @ [?e1]) = Some (used', p')"
      by (auto split: option.splits)
    from Cons.prems(2)
    have d: "distinct (map (\<lambda>u. (start u, end' u)) (used @ [?e1]) @ map (\<lambda>e. (start e, end' e)) es)"
      by auto
    from Cons.prems(3) have c: "\<forall>u\<in>set (used @ [?e1]). count' u = 1 \<or> count' u = 2" by auto
    from Cons.IH[OF run d c] show ?thesis by auto
  qed
qed

lemma extrasLoop_used:
  "distinct (map (\<lambda>u. (start u, end' u)) used) \<Longrightarrow>
   set (map (\<lambda>u. (start u, end' u)) used) \<subseteq> P \<Longrightarrow>
   set (map (\<lambda>e. (start e, end' e)) es) \<subseteq> P \<Longrightarrow>
   \<forall>u\<in>set used. count' u = 1 \<or> count' u = 2 \<Longrightarrow>
   distinct (map (\<lambda>u. (start u, end' u)) (extrasLoop es n used)) \<and>
   set (map (\<lambda>u. (start u, end' u)) (extrasLoop es n used)) \<subseteq> P \<and>
   (\<forall>u\<in>set (extrasLoop es n used). count' u = 1 \<or> count' u = 2)"
proof (induction es arbitrary: n used)
  case Nil
  then show ?case by simp
next
  case (Cons e es)
  let ?M = "\<lambda>ue. (start ue = start e \<and> end' ue = end' e) \<or> (start ue = end' e \<and> end' ue = start e)"
  from Cons.prems(3) have es: "set (map (\<lambda>e. (start e, end' e)) es) \<subseteq> P"
    and e: "(start e, end' e) \<in> P" by auto
  show ?case
  proof (cases "n \<le> 0")
    case True
    with Cons.prems show ?thesis by simp
  next
    case False
    show ?thesis
    proof (cases "findIndex ?M used")
      case None
      let ?e1 = "\<lparr>start = start e, end' = end' e, count' = 1\<rparr>"
      from None have "\<forall>u\<in>set used. \<not> ?M u" by (simp add: findIndex_None)
      then have "(start e, end' e) \<notin> set (map (\<lambda>u. (start u, end' u)) used)" by auto
      with Cons.prems(1) have d: "distinct (map (\<lambda>u. (start u, end' u)) (used @ [?e1]))" by simp
      from Cons.prems(2) e have s: "set (map (\<lambda>u. (start u, end' u)) (used @ [?e1])) \<subseteq> P" by simp
      from Cons.prems(4) have c: "\<forall>u\<in>set (used @ [?e1]). count' u = 1 \<or> count' u = 2" by simp
      from Cons.IH[OF d s es c, of "n - 1"] None False show ?thesis by simp
    next
      case (Some k)
      from findIndex_Some[OF Some] have k: "k < length used" by simp
      show ?thesis
      proof (cases "count' (used ! k) < 2")
        case True
        let ?used1 = "used[k := (used ! k)\<lparr>count' := 2\<rparr>]"
        have m: "map (\<lambda>u. (start u, end' u)) ?used1 = map (\<lambda>u. (start u, end' u)) used"
          using k by (simp add: map_update list_update_same_conv)
        have c: "\<forall>u\<in>set ?used1. count' u = 1 \<or> count' u = 2"
        proof
          fix u assume "u \<in> set ?used1"
          then have "u = (used ! k)\<lparr>count' := 2\<rparr> \<or> u \<in> set used"
            using set_update_subset_insert[of used k] by auto
          with Cons.prems(4) show "count' u = 1 \<or> count' u = 2" by auto
        qed
        from Cons.IH[OF _ _ es c, of "n - 1"] m Cons.prems(1,2) Some True False
        show ?thesis by simp
      next
        case c2: False
        from Cons.IH[OF Cons.prems(1,2) es Cons.prems(4), of n] Some c2 False
        show ?thesis by simp
      qed
    qed
  qed
qed

subsection \<open>The values written to the islands\<close>

lemma addValues_length [simp]: "length (addValues used pts) = length pts"
  by (induction used arbitrary: pts) (simp_all add: Let_def)

lemma addValues_value:
  "\<forall>u\<in>set used. start u < length pts \<and> end' u < length pts \<Longrightarrow> i < length pts \<Longrightarrow>
   value' (addValues used pts ! i)
     = value' (pts ! i)
       + (\<Sum>u\<leftarrow>used. (if start u = i then count' u else 0) + (if end' u = i then count' u else 0))"
proof (induction used arbitrary: pts)
  case Nil
  then show ?case by simp
next
  case (Cons ed eds)
  let ?pts1 = "pts[start ed := (pts ! start ed)\<lparr>value' := value' (pts ! start ed) + count' ed\<rparr>]"
  let ?pts2 = "?pts1[end' ed := (?pts1 ! end' ed)\<lparr>value' := value' (?pts1 ! end' ed) + count' ed\<rparr>]"
  from Cons.prems have b: "start ed < length pts" "end' ed < length pts"
    and rest: "\<forall>u\<in>set eds. start u < length ?pts2 \<and> end' u < length ?pts2"
    and i: "i < length ?pts2" by auto
  have v: "value' (?pts2 ! i) = value' (pts ! i)
           + (if start ed = i then count' ed else 0) + (if end' ed = i then count' ed else 0)"
    using b Cons.prems(2) by (auto simp: nth_list_update)
  have "value' (addValues (ed # eds) pts ! i) = value' (addValues eds ?pts2 ! i)"
    by (simp add: Let_def)
  also have "\<dots> = value' (?pts2 ! i)
       + (\<Sum>u\<leftarrow>eds. (if start u = i then count' u else 0) + (if end' u = i then count' u else 0))"
    by (rule Cons.IH[OF rest i])
  finally show ?case using v by simp
qed

subsection \<open>At most four neighbours\<close>

lemma hasIslandInBetween_clearLine:
  "(x (pts ! i) = x (pts ! j) \<or> y (pts ! i) = y (pts ! j)) \<and> \<not> hasIslandInBetween i j pts
   \<longleftrightarrow> clearLine pts i j"
proof -
  have "liesBetween (pts ! i) (pts ! j) (pts ! p) \<longleftrightarrow>
        (if x (pts ! i) = x (pts ! j)
         then x (pts ! p) = x (pts ! i) \<and> y (pts ! p) > min (y (pts ! i)) (y (pts ! j)) \<and>
              y (pts ! p) < max (y (pts ! i)) (y (pts ! j))
         else y (pts ! p) = y (pts ! i) \<and> x (pts ! p) > min (x (pts ! i)) (x (pts ! j)) \<and>
              x (pts ! p) < max (x (pts ! i)) (x (pts ! j)))" for p
    by (simp add: liesBetween_def)
  then show ?thesis
    unfolding clearLine_def hasIslandInBetween_def Let_def list_ex_iff
    by (auto split: if_splits)
qed

lemma liesBetween_sym:
  "x a = x b \<or> y a = y b \<Longrightarrow> liesBetween a b p = liesBetween b a p"
  unfolding liesBetween_def by (cases "x a = x b") (auto simp: min_def max_def)

lemma clearLine_sym: "clearLine pts i j \<Longrightarrow> clearLine pts j i"
  unfolding clearLine_def using liesBetween_sym[of "pts ! i" "pts ! j"] by auto

lemma dirOf_less: "dirOf pi pj < 4"
  by (simp add: dirOf_def)

lemma no_two_on_one_side:
  fixes a b c :: int
  assumes "b \<noteq> a" "c \<noteq> a" "b \<noteq> c" "(a < b) = (a < c)"
    and "\<not> (min a b < c \<and> c < max a b)" and "\<not> (min a c < b \<and> b < max a c)"
  shows False
  using assms by arith

lemma dirOf_inj:
  assumes ap: "apart pts"
    and i: "i < length pts" and j: "j < length pts" and j': "j' < length pts"
    and ne: "j \<noteq> i" "j' \<noteq> i"
    and c: "clearLine pts i j" and c': "clearLine pts i j'"
    and d: "dirOf (pts ! i) (pts ! j) = dirOf (pts ! i) (pts ! j')"
  shows "j = j'"
proof (rule ccontr)
  assume jj: "j \<noteq> j'"
  from ap i j ne(1) have a1: "x (pts ! j) \<noteq> x (pts ! i) \<or> y (pts ! j) \<noteq> y (pts ! i)"
    unfolding apart_def by blast
  from ap i j' ne(2) have a2: "x (pts ! j') \<noteq> x (pts ! i) \<or> y (pts ! j') \<noteq> y (pts ! i)"
    unfolding apart_def by blast
  from ap j j' jj have a3: "x (pts ! j) \<noteq> x (pts ! j') \<or> y (pts ! j) \<noteq> y (pts ! j')"
    unfolding apart_def by blast
  from c have al: "x (pts ! i) = x (pts ! j) \<or> y (pts ! i) = y (pts ! j)"
    by (simp add: clearLine_def)
  from c' have al': "x (pts ! i) = x (pts ! j') \<or> y (pts ! i) = y (pts ! j')"
    by (simp add: clearLine_def)
  from c j' ne(2) jj have n1: "\<not> liesBetween (pts ! i) (pts ! j) (pts ! j')"
    unfolding clearLine_def by blast
  from c' j ne(1) jj have n2: "\<not> liesBetween (pts ! i) (pts ! j') (pts ! j)"
    unfolding clearLine_def by blast
  show False
  proof (cases "x (pts ! j) = x (pts ! i)")
    case True
    with a1 have yj: "y (pts ! j) \<noteq> y (pts ! i)" by simp
    from d True have xj': "x (pts ! j') = x (pts ! i)"
      unfolding dirOf_def by (simp split: if_splits)
    with a2 have yj': "y (pts ! j') \<noteq> y (pts ! i)" by simp
    from a3 True xj' have yy: "y (pts ! j) \<noteq> y (pts ! j')" by simp
    from d True xj' have same: "(y (pts ! j) > y (pts ! i)) = (y (pts ! j') > y (pts ! i))"
      unfolding dirOf_def by (simp split: if_splits)
    from n1 True xj' have m1: "\<not> (min (y (pts ! i)) (y (pts ! j)) < y (pts ! j') \<and>
                                  y (pts ! j') < max (y (pts ! i)) (y (pts ! j)))"
      unfolding liesBetween_def by simp
    from n2 True xj' have m2: "\<not> (min (y (pts ! i)) (y (pts ! j')) < y (pts ! j) \<and>
                                  y (pts ! j) < max (y (pts ! i)) (y (pts ! j')))"
      unfolding liesBetween_def by simp
    show False by (rule no_two_on_one_side[OF yj yj' yy same m1 m2])
  next
    case False
    with al have yj: "y (pts ! j) = y (pts ! i)" by simp
    from d False have xj': "x (pts ! j') \<noteq> x (pts ! i)"
      unfolding dirOf_def by (simp split: if_splits)
    with al' have yj': "y (pts ! j') = y (pts ! i)" by simp
    from a3 yj yj' have xx: "x (pts ! j) \<noteq> x (pts ! j')" by simp
    from d False xj' have same: "(x (pts ! j) > x (pts ! i)) = (x (pts ! j') > x (pts ! i))"
      unfolding dirOf_def by (simp split: if_splits)
    from n1 False yj yj' have m1: "\<not> (min (x (pts ! i)) (x (pts ! j)) < x (pts ! j') \<and>
                                  x (pts ! j') < max (x (pts ! i)) (x (pts ! j)))"
      unfolding liesBetween_def by auto
    from n2 xj' yj yj' have m2: "\<not> (min (x (pts ! i)) (x (pts ! j')) < x (pts ! j) \<and>
                                  x (pts ! j) < max (x (pts ! i)) (x (pts ! j')))"
      unfolding liesBetween_def by auto
    show False by (rule no_two_on_one_side[OF False xj' xx same m1 m2])
  qed
qed

lemma incident_pairs_le_4:
  assumes ap: "apart pts" and i: "i < length pts"
    and Q: "\<And>a b. (a, b) \<in> Q \<Longrightarrow> a < b \<and> b < length pts \<and> clearLine pts a b"
  shows "card {q \<in> Q. fst q = i \<or> snd q = i} \<le> 4"
proof -
  let ?S = "{q \<in> Q. fst q = i \<or> snd q = i}"
  let ?other = "\<lambda>q. if fst q = i then snd q else fst q"
  let ?h = "\<lambda>q. dirOf (pts ! i) (pts ! ?other q)"
  have oth: "?other q < length pts \<and> ?other q \<noteq> i \<and> clearLine pts i (?other q)"
    if "q \<in> ?S" for q
  proof -
    obtain a b where q: "q = (a, b)" by (cases q)
    with that have ab: "(a, b) \<in> Q" and inc: "a = i \<or> b = i" by auto
    from Q[OF ab] have 1: "a < b" "b < length pts" "clearLine pts a b" by auto
    show ?thesis
    proof (cases "a = i")
      case True
      with 1 q show ?thesis by simp
    next
      case False
      with inc have "b = i" by simp
      with False 1 q clearLine_sym[OF 1(3)] show ?thesis by simp
    qed
  qed
  have "inj_on ?h ?S"
  proof (rule inj_onI)
    fix q q' assume q: "q \<in> ?S" and q': "q' \<in> ?S" and h: "?h q = ?h q'"
    from oth[OF q] have 1: "?other q < length pts" "?other q \<noteq> i" "clearLine pts i (?other q)"
      by blast+
    from oth[OF q'] have 2: "?other q' < length pts" "?other q' \<noteq> i" "clearLine pts i (?other q')"
      by blast+
    have o: "?other q = ?other q'"
      by (rule dirOf_inj[OF ap i 1(1) 2(1) 1(2) 2(2) 1(3) 2(3) h])
    obtain a b where qa: "q = (a, b)" by (cases q)
    obtain a' b' where qa': "q' = (a', b')" by (cases q')
    from q qa have "(a, b) \<in> Q" "a = i \<or> b = i" by auto
    with Q[of a b] have 3: "a < b" "a = i \<or> b = i" by auto
    from q' qa' have "(a', b') \<in> Q" "a' = i \<or> b' = i" by auto
    with Q[of a' b'] have 4: "a' < b'" "a' = i \<or> b' = i" by auto
    from o have "(if a = i then b else a) = (if a' = i then b' else a')"
      by (simp add: qa qa' cong: if_cong)
    with 3 4 have "a = a' \<and> b = b'" by (auto split: if_splits)
    then show "q = q'" by (simp add: qa qa')
  qed
  moreover have "?h ` ?S \<subseteq> {..<4}" using dirOf_less by auto
  ultimately have "card ?S \<le> card {..<4::nat}" by (intro card_inj_on_le) auto
  then show ?thesis by simp
qed

lemma sum_list_le_filter:
  "\<forall>u\<in>set us. f u \<le> (if P u then 2 else (0::int)) \<Longrightarrow>
   sum_list (map f us) \<le> 2 * int (length (filter P us))"
proof (induction us)
  case Nil
  then show ?case by simp
next
  case (Cons u us)
  then have "f u \<le> (if P u then 2 else 0)" and "sum_list (map f us) \<le> 2 * int (length (filter P us))"
    by simp_all
  then show ?case by (cases "P u") simp_all
qed

lemma incident_filter_set:
  "set (map (\<lambda>u. (start u, end' u)) (filter (\<lambda>u. start u = i \<or> end' u = i) used))
     = {q \<in> set (map (\<lambda>u. (start u, end' u)) used). fst q = i \<or> snd q = i}"
  by (induction used) auto

text \<open>The value an island gets from a list of chosen edges is at most 8.\<close>

lemma value_sum_le_8:
  assumes ap: "apart pts" and i: "i < length pts"
    and d: "distinct (map (\<lambda>u. (start u, end' u)) used)"
    and Q: "\<And>u. u \<in> set used \<Longrightarrow> start u < end' u \<and> end' u < length pts \<and>
                 clearLine pts (start u) (end' u)"
    and c: "\<forall>u\<in>set used. count' u = 1 \<or> count' u = 2"
  shows "(\<Sum>u\<leftarrow>used. (if start u = i then count' u else 0) + (if end' u = i then count' u else 0)) \<le> 8"
proof -
  let ?pr = "\<lambda>u. (start u, end' u)"
  let ?inc = "\<lambda>u. start u = i \<or> end' u = i"
  let ?w = "\<lambda>u. (if start u = i then count' u else 0) + (if end' u = i then count' u else 0)"
  have "\<forall>u\<in>set used. ?w u \<le> (if ?inc u then 2 else 0)"
  proof
    fix u assume u: "u \<in> set used"
    from Q[OF u] have "start u \<noteq> end' u" by simp
    moreover from c u have "count' u \<le> 2" by auto
    moreover from c u have "0 \<le> count' u" by auto
    ultimately show "?w u \<le> (if ?inc u then 2 else 0)" by auto
  qed
  then have le: "sum_list (map ?w used) \<le> 2 * int (length (filter ?inc used))"
    by (rule sum_list_le_filter)
  have df: "distinct (map ?pr (filter ?inc used))"
    using d by (rule distinct_map_filter)
  have "length (filter ?inc used) = length (map ?pr (filter ?inc used))" by simp
  also have "\<dots> = card (set (map ?pr (filter ?inc used)))"
    using df by (rule distinct_card[symmetric])
  also have "\<dots> = card {q \<in> set (map ?pr used). fst q = i \<or> snd q = i}"
    by (simp only: incident_filter_set)
  also have "\<dots> \<le> 4"
  proof (rule incident_pairs_le_4[OF ap i])
    fix a b assume "(a, b) \<in> set (map ?pr used)"
    then obtain u where "u \<in> set used" "a = start u" "b = end' u" by auto
    with Q[of u] show "a < b \<and> b < length pts \<and> clearLine pts a b" by simp
  qed
  finally have "length (filter ?inc used) \<le> 4" .
  with le show ?thesis by linarith
qed

subsection \<open>The values of an accepted board\<close>

lemma shuffled_pairs:
  assumes "mset es' = mset es"
  shows "set (map (\<lambda>e. (start e, end' e)) es') = set (map (\<lambda>e. (start e, end' e)) es)"
    and "distinct (map (\<lambda>e. (start e, end' e)) es') = distinct (map (\<lambda>e. (start e, end' e)) es)"
proof -
  from assms have m: "mset (map (\<lambda>e. (start e, end' e)) es') = mset (map (\<lambda>e. (start e, end' e)) es)"
    by simp
  from m show "set (map (\<lambda>e. (start e, end' e)) es') = set (map (\<lambda>e. (start e, end' e)) es)"
    by (rule mset_eq_setD)
  from m show "distinct (map (\<lambda>e. (start e, end' e)) es') = distinct (map (\<lambda>e. (start e, end' e)) es)"
    by (rule mset_eq_imp_distinct_iff)
qed

lemma attemptOnce_values:
  assumes "attemptOnce m t = Some (Some b, t')"
  shows "list_all (\<lambda>p. 1 \<le> value' p \<and> value' p \<le> 8) b"
proof -
  let ?pr = "\<lambda>u. (start u, end' u)"
  from assms obtain r t1 positions t2 potential1 t3 usedEdges parent potential2 where
    sample: "samplePositions (r + minIslands (MODES_CONFIG m)) (gridSize (MODES_CONFIG m)) [] t1
       = Some (positions, t2)"
    and sh1: "shuffleArray (potentialEdges (newIslands positions)) t2 = Some (potential1, t3)"
    and mst: "mstLoop potential1 (unionFindInit (newIslands positions)) [] = Some (usedEdges, parent)"
    and sh2: "shuffleArray potential1 t3 = Some (potential2, t')"
    and res: "Some b = (let islands2 = addValues (extrasLoop potential2 (length (newIslands positions) div 2) usedEdges)
                             (newIslands positions)
            in if list_ex (\<lambda>i. value' i = 0) islands2 then None
               else Some (map (\<lambda>p. p\<lparr>remainingConnections := value' p\<rparr>) islands2))"
    by (rule attemptOnceE)
  let ?pts = "newIslands positions"
  let ?P = "set (map ?pr (potentialEdges ?pts))"
  let ?used2 = "extrasLoop potential2 (length ?pts div 2) usedEdges"
  let ?pts2 = "addValues ?used2 ?pts"
  from samplePositions_distinct[OF sample] have "distinct positions" by simp
  then have ap: "apart ?pts" by (rule newIslands_apart)
  note p1 = shuffled_pairs[OF shuffleArray_mset[OF sh1]]
  note p2 = shuffled_pairs[OF shuffleArray_mset[OF sh2]]
  have d1: "distinct (map ?pr potential1)"
    using p1(2) potentialEdges_distinct[of ?pts] by simp
  from mstLoop_used[OF mst] d1
  have u1: "distinct (map ?pr usedEdges)" "set (map ?pr usedEdges) \<subseteq> ?P"
    "\<forall>u\<in>set usedEdges. count' u = 1 \<or> count' u = 2"
    using p1(1) by auto
  have "set (map ?pr potential2) \<subseteq> ?P" using p1(1) p2(1) by simp
  from extrasLoop_used[OF u1(1,2) this u1(3), of "length ?pts div 2"]
  have u2: "distinct (map ?pr ?used2)" "set (map ?pr ?used2) \<subseteq> ?P"
    "\<forall>u\<in>set ?used2. count' u = 1 \<or> count' u = 2"
    by auto
  have Q: "start u < end' u \<and> end' u < length ?pts \<and> clearLine ?pts (start u) (end' u)"
    if "u \<in> set ?used2" for u
  proof -
    from that u2(2) have "(start u, end' u) \<in> ?P" by auto
    then show ?thesis
      unfolding potentialEdges_set using hasIslandInBetween_clearLine[of ?pts "start u" "end' u"]
      by blast
  qed
  have bnd: "\<forall>u\<in>set ?used2. start u < length ?pts \<and> end' u < length ?pts"
    using Q by fastforce
  have val: "0 \<le> value' (?pts2 ! i) \<and> value' (?pts2 ! i) \<le> 8" if i: "i < length ?pts" for i
  proof -
    let ?w = "\<lambda>u. (if start u = i then count' u else 0) + (if end' u = i then count' u else 0)"
    from i have "value' (?pts ! i) = 0" by (simp add: newIslands_nth)
    with addValues_value[OF bnd i] have v: "value' (?pts2 ! i) = sum_list (map ?w ?used2)" by simp
    have "\<forall>u\<in>set ?used2. 0 \<le> ?w u" using u2(3) by auto
    then have "0 \<le> sum_list (map ?w ?used2)" by (intro sum_list_nonneg) auto
    moreover have "sum_list (map ?w ?used2) \<le> 8"
      by (rule value_sum_le_8[OF ap i u2(1) Q u2(3)])
    ultimately show ?thesis using v by simp
  qed
  from res have nz: "\<not> list_ex (\<lambda>i. value' i = 0) ?pts2"
    and b: "b = map (\<lambda>p. p\<lparr>remainingConnections := value' p\<rparr>) ?pts2"
    by (auto simp: Let_def split: if_splits)
  have "1 \<le> value' p \<and> value' p \<le> 8" if "p \<in> set ?pts2" for p
  proof -
    from that obtain i where i: "i < length ?pts2" "p = ?pts2 ! i" by (auto simp: in_set_conv_nth)
    with val[of i] have "0 \<le> value' p" "value' p \<le> 8" by simp_all
    moreover from nz that have "value' p \<noteq> 0" by (auto simp: list_ex_iff)
    ultimately show ?thesis by simp
  qed
  then show ?thesis by (simp add: b list_all_iff)
qed

lemma generateValidPuzzle_values:
  assumes "generateValidPuzzle m t = Some puzzle"
  shows "list_all (\<lambda>p. 1 \<le> value' p \<and> value' p \<le> 8) puzzle"
proof -
  from assms attemptLoop_result[of m 0 t puzzle]
  consider "puzzle = fallbackBoard" | t0 t' where "attemptOnce m t0 = Some (Some puzzle, t')"
    by (auto simp: generateValidPuzzle_def)
  then show ?thesis
  proof cases
    case 1
    then show ?thesis by (simp add: fallbackBoard_def)
  next
    case 2
    then show ?thesis by (rule attemptOnce_values)
  qed
qed

subsection \<open>Two runs of the generator\<close>

lemma rejectedRun_diagonal:
  "rejectedRun Easy 100 diagonalTape"
  by code_simp

lemma generate_row_of_five:
  "generateValidPuzzle Easy rowTape = Some
     [\<lparr>value' = 1, x = 0, y = 0, bridges = \<lparr>horizontal = 0, vertical = 0\<rparr>,
        remainingConnections = 1\<rparr>,
      \<lparr>value' = 2, x = 1, y = 0, bridges = \<lparr>horizontal = 0, vertical = 0\<rparr>,
        remainingConnections = 2\<rparr>,
      \<lparr>value' = 3, x = 2, y = 0, bridges = \<lparr>horizontal = 0, vertical = 0\<rparr>,
        remainingConnections = 3\<rparr>,
      \<lparr>value' = 4, x = 3, y = 0, bridges = \<lparr>horizontal = 0, vertical = 0\<rparr>,
        remainingConnections = 4\<rparr>,
      \<lparr>value' = 2, x = 4, y = 0, bridges = \<lparr>horizontal = 0, vertical = 0\<rparr>,
        remainingConnections = 2\<rparr>]"
  by code_simp

lemma attemptOnce_row_of_five:
  "attemptOnce Easy rowTape = Some (generateValidPuzzle Easy rowTape, [])"
  by code_simp


section \<open>The claims about the validator, the ledger and the win evaluator\<close>

text \<open>
  C2 (as amended). The connection validator accepts a pair of points exactly when they
  have the same x or the same y coordinate (both may be shared: the validator itself does
  not ask that start and end differ), both have \<open>remainingConnections\<close> above 0, and no
  island of the board lies strictly between them, on their column when they share x and on
  their row otherwise. For two different islands of a board whose islands are at pairwise
  different places this is the legality contract of the specification.
\<close>

theorem isValidConnection_iff:
  "(isValidConnection g s e \<longleftrightarrow>
      (x (obj g s) = x (obj g e) \<or> y (obj g s) = y (obj g e)) \<and>
      0 < remainingConnections (obj g s) \<and> 0 < remainingConnections (obj g e) \<and>
      (\<forall>p\<in>set (boardPoints g). \<not> liesBetween (obj g s) (obj g e) p)) \<and>
   (apart (boardPoints g) \<longrightarrow> s \<in> set (board g) \<longrightarrow> e \<in> set (board g) \<longrightarrow> s \<noteq> e \<longrightarrow>
      isValidConnection g s e = isLegalSpec g s e)"
  using isValidConnection_char isValidConnection_isLegalSpec by blast

theorem isValidConnection_iff_witness:
  "isValidConnection (loadPuzzle fallbackBoard) 0 1 \<and>
   isLegalSpec (loadPuzzle fallbackBoard) 0 1 \<and>
   \<not> isValidConnection (loadPuzzle
       [\<lparr>value' = 1, x = 0, y = 0, bridges = \<lparr>horizontal = 0, vertical = 0\<rparr>,
         remainingConnections = 1\<rparr>,
        \<lparr>value' = 2, x = 1, y = 0, bridges = \<lparr>horizontal = 0, vertical = 0\<rparr>,
         remainingConnections = 2\<rparr>,
        \<lparr>value' = 1, x = 2, y = 0, bridges = \<lparr>horizontal = 0, vertical = 0\<rparr>,
         remainingConnections = 1\<rparr>]) 0 2"
proof -
  let ?g = "loadPuzzle fallbackBoard"
  let ?row = "loadPuzzle
       [\<lparr>value' = 1, x = 0, y = 0, bridges = \<lparr>horizontal = 0, vertical = 0\<rparr>,
         remainingConnections = 1\<rparr>,
        \<lparr>value' = 2, x = 1, y = 0, bridges = \<lparr>horizontal = 0, vertical = 0\<rparr>,
         remainingConnections = 2\<rparr>,
        \<lparr>value' = 1, x = 2, y = 0, bridges = \<lparr>horizontal = 0, vertical = 0\<rparr>,
         remainingConnections = 1\<rparr>]"
  have ap: "apart (boardPoints ?g)"
    by (auto simp: apart_def loadPuzzle_def fallbackBoard_def boardPoints_def obj_def
        less_Suc_eq nth_Cons')
  have mem: "0 \<in> set (board ?g)" "1 \<in> set (board ?g)"
    by (simp_all add: loadPuzzle_def fallbackBoard_def)
  have v: "isValidConnection ?g 0 1"
    using isValidConnection_iff [of ?g 0 1]
    by (simp add: loadPuzzle_def fallbackBoard_def obj_def boardPoints_def liesBetween_def)
  have ne: "(0::nat) \<noteq> 1" by simp
  have l: "isLegalSpec ?g 0 1"
    using isValidConnection_iff [of ?g 0 1] ap mem ne v by blast
  have n: "\<not> isValidConnection ?row 0 2"
    using isValidConnection_iff [of ?row 0 2]
    by (simp add: loadPuzzle_def obj_def boardPoints_def liesBetween_def)
  from v l n show ?thesis by simp
qed

theorem isValidConnection_counterexample:
  "isValidConnection (loadPuzzle fallbackBoard) 0 0 \<and> \<not> isLegalSpec (loadPuzzle fallbackBoard) 0 0"
  by code_simp

text \<open>
  C3 (as amended). A reduction request for a bridge whose id no bridge of the bridge list
  has leaves the bridge list as it is and raises no error, but it is not a no-op: every
  island at the coordinates of one of the bridge's end points gets 1 added to its
  \<open>remainingConnections\<close>; the other islands are unchanged.
\<close>

theorem handleBridgeClick_absent:
  assumes "list_all (\<lambda>a. a < length (heap g)) (board g)"
    and "\<forall>c\<in>set (bridgeList g). id' c \<noteq> id' b"
  shows "bridgeList (handleBridgeClick g b) = bridgeList g \<and>
         boardPoints (handleBridgeClick g b)
           = map (\<lambda>p. if atEndpoints (obj g (start b)) (obj g (end' b)) p
                       then p\<lparr>remainingConnections := remainingConnections p + 1\<rparr> else p)
                 (boardPoints g)"
proof -
  let ?m = "map (\<lambda>c. if id' c = id' b then c\<lparr>count' := 1\<rparr> else c) (bridgeList g)"
  let ?f = "filter (\<lambda>c. id' c \<noteq> id' b) (bridgeList g)"
  from assms(2) have m: "?m = bridgeList g" by (simp add: map_idI)
  from assms(2) have f: "?f = bridgeList g" by simp
  have eq: "handleBridgeClick g b = updatePointConnections g (start b) (end' b) (- 1)"
    by (simp add: handleBridgeClick_def m f restoreOne_eq)
  have bmp: "bump ps pe (- 1) = (\<lambda>p. if atEndpoints ps pe p
                       then p\<lparr>remainingConnections := remainingConnections p + 1\<rparr> else p)" for ps pe
    by (rule ext) (simp add: bump_def)
  from updatePointConnections_spec(3,4)[OF assms(1), of "start b" "end' b" "- 1"]
  show ?thesis by (simp add: eq bmp)
qed

theorem handleBridgeClick_absent_witness:
  "bridgeList (handleBridgeClick (loadPuzzle fallbackBoard)
       \<lparr>start = 0, end' = 1, count' = 1, id' = 0, isVertical = False\<rparr>) = [] \<and>
   map remainingConnections (boardPoints (handleBridgeClick (loadPuzzle fallbackBoard)
       \<lparr>start = 0, end' = 1, count' = 1, id' = 0, isVertical = False\<rparr>)) = [3, 3]"
  using handleBridgeClick_absent [of "loadPuzzle fallbackBoard"
       "\<lparr>start = 0, end' = 1, count' = 1, id' = 0, isVertical = False\<rparr>"]
  by (simp add: loadPuzzle_def fallbackBoard_def obj_def boardPoints_def atEndpoints_def)

theorem handleBridgeClick_absent_counterexample:
  "bridgeList (loadPuzzle fallbackBoard) = [] \<and>
   map remainingConnections (boardPoints (loadPuzzle fallbackBoard)) = [2, 2] \<and>
   map remainingConnections (boardPoints (handleBridgeClick (loadPuzzle fallbackBoard)
       \<lparr>start = 0, end' = 1, count' = 1, id' = 0, isVertical = False\<rparr>)) = [3, 3]"
  by code_simp

text \<open>
  C4 (the code departs from the claim). On the two-island board, selecting the two islands
  twice in a row leaves two bridges of count 1 between the same two coordinates: the
  second request does not find the first bridge, because \<open>addOrUpdateBridge\<close> compares the
  bridge's end points with the requested points by reference, and the first request
  replaced both board objects.
\<close>

theorem second_request_adds_second_bridge:
  "(let g0 = loadPuzzle fallbackBoard;
        g1 = handlePointClick (handlePointClick g0 (board g0 ! 0)) (board g0 ! 1);
        g2 = handlePointClick (handlePointClick g1 (board g1 ! 0)) (board g1 ! 1)
    in map count' (bridgeList g1) = [1] \<and>
       map count' (bridgeList g2) = [1, 1] \<and>
       map (\<lambda>b. ((x (obj g2 (start b)), y (obj g2 (start b))),
                  (x (obj g2 (end' b)), y (obj g2 (end' b))))) (bridgeList g2)
         = [((0, 0), (1, 0)), ((0, 0), (1, 0))] \<and>
       map remainingConnections (boardPoints g2) = [0, 0])"
  by code_simp




text \<open>
  C10. On a board that is not empty the win evaluator sets the win flag to true exactly
  when every island has \<open>remainingConnections = 0\<close>; it changes nothing but the flag, the
  flag it computes depends on the islands only, and evaluating it a second time gives the
  same state.
\<close>

theorem winCheck_correct:
  assumes "board g \<noteq> []"
  shows "(isGameWon (winCheck g) \<longleftrightarrow> (\<forall>p\<in>set (boardPoints g). remainingConnections p = 0)) \<and>
         winCheck g = g\<lparr>isGameWon := isGameWon (winCheck g)\<rparr> \<and>
         winCheck (winCheck g) = winCheck g \<and>
         (boardPoints g' = boardPoints g \<longrightarrow> isGameWon (winCheck g') = isGameWon (winCheck g))"
proof -
  have flag: "isGameWon (winCheck h) \<longleftrightarrow> (\<forall>p\<in>set (boardPoints h). remainingConnections p = 0)"
    if "board h \<noteq> []" for h
    using that by (simp add: winCheck_def list_all_iff boardPoints_def)
  have "boardPoints g' = boardPoints g \<Longrightarrow> board g' \<noteq> []"
    using assms by (auto simp: boardPoints_def)
  with flag[of g'] flag[OF assms] have
    "boardPoints g' = boardPoints g \<longrightarrow> isGameWon (winCheck g') = isGameWon (winCheck g)" by auto
  moreover have "winCheck (winCheck g) = winCheck g"
    by (simp add: winCheck_def obj_def)
  moreover have "winCheck g = g\<lparr>isGameWon := isGameWon (winCheck g)\<rparr>"
    by (simp add: winCheck_def)
  ultimately show ?thesis using flag[OF assms] by blast
qed

theorem winCheck_correct_witness:
  "board (loadPuzzle fallbackBoard) \<noteq> [] \<and> \<not> isGameWon (winCheck (loadPuzzle fallbackBoard)) \<and>
   winCheck (winCheck (loadPuzzle fallbackBoard)) = winCheck (loadPuzzle fallbackBoard)"
proof -
  have ne: "board (loadPuzzle fallbackBoard) \<noteq> []"
    by (simp add: loadPuzzle_def fallbackBoard_def)
  from winCheck_correct [OF ne] ne show ?thesis
    by (simp add: loadPuzzle_def fallbackBoard_def boardPoints_def obj_def)
qed

section \<open>The claims about generated boards\<close>

text \<open>
  C1. In every state reachable from a freshly generated board by primary-cycle steps
  (\<open>addOrUpdateBridge\<close> on a pair the validator accepts) and reduction steps
  (\<open>handleBridgeClick\<close> on a bridge of the bridge list), every island of the board has
  \<open>remainingConnections\<close> equal to its \<open>value\<close> minus the sum of the counts of the bridges
  incident to it.
\<close>

theorem ledger_invariant:
  assumes "generateValidPuzzle m t = Some puzzle"
    and "reachable (loadPuzzle puzzle) g"
  shows "\<forall>p\<in>set (boardPoints g). remainingConnections p = value' p - incidentCount g p"
proof -
  from assms(1) have "ledgerOk (loadPuzzle puzzle)"
    by (intro loadPuzzle_ledgerOk generateValidPuzzle_remaining)
  with assms(2) loadPuzzle_wellFormed have "ledgerOk g"
    using reachable_invariant by blast
  then show ?thesis by (simp add: ledgerOk_def list_all_iff)
qed

theorem ledger_invariant_witness:
  "(let g0 = loadPuzzle (the (generateValidPuzzle Easy rowTape));
        g1 = addOrUpdateBridge g0 2 3;
        g2 = handleBridgeClick g1 (bridgeList g1 ! 0)
    in list_all (\<lambda>p. remainingConnections p = value' p - incidentCount g1 p) (boardPoints g1) \<and>
       list_all (\<lambda>p. remainingConnections p = value' p - incidentCount g2 p) (boardPoints g2) \<and>
       map remainingConnections (boardPoints g1) = [1, 2, 2, 3, 2] \<and>
       map count' (bridgeList g1) = [1] \<and> bridgeList g2 = [])"
proof -
  let ?g0 = "loadPuzzle (the (generateValidPuzzle Easy rowTape))"
  let ?g1 = "addOrUpdateBridge ?g0 2 3"
  let ?g2 = "handleBridgeClick ?g1 (bridgeList ?g1 ! 0)"
  have gen: "generateValidPuzzle Easy rowTape = Some (the (generateValidPuzzle Easy rowTape))"
    by (simp add: generate_row_of_five)
  have r1: "reachable ?g0 ?g1"
  proof (rule reachable.primary[OF reachable.initial])
    show "2 < length (heap ?g0)" "3 < length (heap ?g0)"
      by (simp_all add: generate_row_of_five loadPuzzle_def)
    show "isValidConnection ?g0 2 3"
      unfolding generate_row_of_five option.sel by code_simp
  qed
  have b: "bridgeList ?g1 ! 0 \<in> set (bridgeList ?g1)"
    unfolding generate_row_of_five option.sel by code_simp
  have r2: "reachable ?g0 ?g2"
    by (rule reachable.reduce[OF r1 b])
  have vals: "map remainingConnections (boardPoints ?g1) = [1, 2, 2, 3, 2]"
    "map count' (bridgeList ?g1) = [1]" "bridgeList ?g2 = []"
    unfolding generate_row_of_five option.sel by code_simp+
  from ledger_invariant[OF gen r1] ledger_invariant[OF gen r2] vals
  show ?thesis by (simp add: Let_def list_all_iff)
qed

text \<open>
  C6. Every board accepted by an attempt of the generation loop has every island's
  \<open>value\<close> between 1 and 8, so no island has value 0; with the fallback board, whose
  values are 2, this holds for every board \<open>generateValidPuzzle\<close> returns.
\<close>

theorem accepted_board_values:
  assumes "attemptOnce m t = Some (Some puzzle, t') \<or> generateValidPuzzle m t = Some puzzle"
  shows "list_all (\<lambda>p. 1 \<le> value' p \<and> value' p \<le> 8) puzzle"
  using assms attemptOnce_values generateValidPuzzle_values by blast

theorem accepted_board_values_witness:
  "attemptOnce Easy rowTape = Some (generateValidPuzzle Easy rowTape, []) \<and>
   map value' (the (generateValidPuzzle Easy rowTape)) = [1, 2, 3, 4, 2] \<and>
   list_all (\<lambda>p. 1 \<le> value' p \<and> value' p \<le> 8) (the (generateValidPuzzle Easy rowTape))"
proof -
  have acc: "attemptOnce Easy rowTape = Some (Some (the (generateValidPuzzle Easy rowTape)), [])"
    by (simp add: attemptOnce_row_of_five generate_row_of_five)
  from accepted_board_values [OF disjI1, OF acc] show ?thesis
    by (simp add: attemptOnce_row_of_five generate_row_of_five)
qed

text \<open>
  C7. When all 100 attempts are rejected, the generator returns the fallback board: two
  islands, at (0,0) and (1,0), each with \<open>value = 2\<close> and \<open>remainingConnections = 2\<close>; the
  game loaded from it has no bridges.
\<close>

theorem exhausted_attempts_give_fallback:
  assumes "rejectedRun m 100 t"
  shows "generateValidPuzzle m t = Some fallbackBoard \<and>
         map (\<lambda>p. (x p, y p, value' p, remainingConnections p)) fallbackBoard
           = [(0, 0, 2, 2), (1, 0, 2, 2)] \<and>
         bridgeList (loadPuzzle fallbackBoard) = []"
proof -
  from assms have "attemptLoop m 0 t = Some fallbackBoard"
    using rejectedRun_fallback[of 0 m t] by simp
  then show ?thesis
    by (simp add: generateValidPuzzle_def fallbackBoard_def loadPuzzle_def)
qed

theorem exhausted_attempts_give_fallback_witness:
  "generateValidPuzzle Easy diagonalTape
     = Some fallbackBoard"
  using exhausted_attempts_give_fallback [OF rejectedRun_diagonal] by simp

text \<open>
  C8. On every board the generator returns, an accepted one or the fallback, every
  island has \<open>remainingConnections\<close> equal to its \<open>value\<close>.
\<close>

theorem generated_remaining_eq_value:
  assumes "generateValidPuzzle m t = Some puzzle"
  shows "list_all (\<lambda>p. remainingConnections p = value' p) puzzle"
  using assms by (rule generateValidPuzzle_remaining)

theorem generated_remaining_eq_value_witness:
  "list_all (\<lambda>p. remainingConnections p = value' p)
     (the (generateValidPuzzle Easy rowTape)) \<and>
   map value' (the (generateValidPuzzle Easy rowTape))
     = [1, 2, 3, 4, 2]"
proof -
  have gen: "generateValidPuzzle Easy rowTape = Some (the (generateValidPuzzle Easy rowTape))"
    by (simp add: generate_row_of_five)
  from generated_remaining_eq_value [OF gen] show ?thesis
    by (simp add: generate_row_of_five)
qed

text \<open>
  C9. Started on the fresh union-find structure of \<open>unionFindInit\<close>, the spanning tree
  loop returns, and the edges it has accepted are those of \<open>acceptedSpec\<close>: a candidate
  edge is accepted exactly when its end points are not yet in the same component.
  On a board with at least one island the number of accepted edges is K - 1 exactly
  when the candidate graph on the K islands is connected.
\<close>

theorem spanning_tree_construction:
  assumes "\<forall>e\<in>set es. start e < length islands \<and> end' e < length islands"
    and "islands \<noteq> []"
  shows "\<exists>p. mstLoop es (unionFindInit islands) [] = Some (acceptedSpec [] es, p) \<and>
           (int (length (acceptedSpec [] es)) = int (length islands) - 1
              \<longleftrightarrow> graphConnected (length islands) es)"
  using assms by (rule spanning_tree_spec)

theorem spanning_tree_construction_witness:
  "acceptedSpec [] (potentialEdges (newIslands [(0, 0), (1, 0), (2, 0)]))
     = [\<lparr>start = 0, end' = 1, count' = 1\<rparr>, \<lparr>start = 1, end' = 2, count' = 1\<rparr>] \<and>
   graphConnected 3 (potentialEdges (newIslands [(0, 0), (1, 0), (2, 0)]))"
proof -
  let ?isl = "newIslands [(0, 0), (1, 0), (2, 0)]"
  have len: "length ?isl = 3" by (simp add: newIslands_def)
  have edges: "\<forall>e\<in>set (potentialEdges ?isl). start e < length ?isl \<and> end' e < length ?isl"
    unfolding potentialEdges_row_of_three len by simp
  have ne: "?isl \<noteq> []" by (simp add: newIslands_def)
  from spanning_tree_construction [OF edges ne] obtain p where
    run: "mstLoop (potentialEdges ?isl) (unionFindInit ?isl) []
            = Some (acceptedSpec [] (potentialEdges ?isl), p)"
    and iff: "int (length (acceptedSpec [] (potentialEdges ?isl))) = int (length ?isl) - 1
              \<longleftrightarrow> graphConnected (length ?isl) (potentialEdges ?isl)"
    by blast
  from run have acc: "acceptedSpec [] (potentialEdges ?isl)
      = [\<lparr>start = 0, end' = 1, count' = 1\<rparr>, \<lparr>start = 1, end' = 2, count' = 1\<rparr>]"
    unfolding mstLoop_row_of_three by simp
  have "int (length (acceptedSpec [] (potentialEdges ?isl))) = int (length ?isl) - 1"
    unfolding acc len by simp
  with iff have "graphConnected (length ?isl) (potentialEdges ?isl)" by simp
  then have "graphConnected 3 (potentialEdges ?isl)" unfolding len .
  with acc show ?thesis by (rule conjI)
qed

end
